theory Spec2Isabelle
  imports Main
begin

section \<open>Data model of map.c\<close>

text \<open>
  A C \<^verbatim>\<open>char\<close> is a \<^typ>\<open>char\<close>; its code is read with \<^const>\<open>of_char\<close> as an
  \<^typ>\<open>int\<close>. A NUL-terminated C string is the list of the bytes before its terminator.
  A fixed-size \<^verbatim>\<open>char\<close> array is a list whose length is the size of the array.
\<close>

abbreviation NUL :: char where
  "NUL \<equiv> CHR 0x00"

text \<open>
  \<^verbatim>\<open>typedef struct { char *in; int inlen; char *mapped; int mappedlen; char mode; } Map;\<close>
  The field \<^verbatim>\<open>in\<close> is named \<open>inkeys\<close> here (\<open>in\<close> is reserved).
\<close>

record Map =
  inkeys :: string
  inlen :: int
  mapped :: string
  mappedlen :: int
  mode :: char

section \<open>The key-notation translator\<close>

text \<open>
  The \<^verbatim>\<open>do { ... } while (p[symlen++] != '>')\<close> scan of \<^verbatim>\<open>map_convert_keys\<close>. The list
  \<open>p\<close> is the input from the pointer \<^verbatim>\<open>p\<close> to its end, so \<^verbatim>\<open>&p[symlen] == &in[inlen]\<close>
  is \<open>symlen = length p\<close>; \<open>symlen\<close> starts at 1 and grows by one, so the test is
  written \<open>length p \<le> symlen\<close>.
\<close>

function scan_label :: "string \<Rightarrow> nat \<Rightarrow> nat" where
  "scan_label p symlen =
     (if length p \<le> symlen \<or> p ! symlen = CHR ''<'' \<or> p ! symlen = CHR '' '' then symlen
      else if p ! symlen \<noteq> CHR ''>'' then scan_label p (symlen + 1)
      else symlen + 1)"
  by pat_completeness auto
termination
  by (relation "measure (\<lambda>(p, symlen). length p - symlen)") auto

declare scan_label.simps [simp del]

text \<open>The static table \<^verbatim>\<open>keys[]\<close> of \<^verbatim>\<open>map_convert_keylabel\<close>: label, len, ch, chlen.\<close>

definition keylabels :: "(string \<times> nat \<times> string \<times> nat) list" where
  "keylabels =
     [(''<CR>'', 4, [CHR 0x0A], 1),
      (''<Tab>'', 5, [CHR 0x09], 1),
      (''<Esc>'', 5, [CHR 0x1B], 1)]"

text \<open>
  The \<^verbatim>\<open>for\<close> loop of \<^verbatim>\<open>map_convert_keylabel\<close> over the table. The result is the pair
  of the returned pointer (\<open>None\<close> for \<^verbatim>\<open>NULL\<close>) and \<^verbatim>\<open>*len\<close>. The label and the
  \<open>inlen\<close> bytes at \<open>p\<close> hold no NUL, so \<^verbatim>\<open>strncmp(label, in, inlen) == 0\<close> with
  \<open>inlen\<close> the length of the label is equality with the first \<open>inlen\<close> bytes.
\<close>

fun keylabel_loop :: "(string \<times> nat \<times> string \<times> nat) list \<Rightarrow> string \<Rightarrow> nat \<Rightarrow> string option \<times> nat" where
  "keylabel_loop [] p n = (None, 0)"
| "keylabel_loop ((label, len, ch, chlen) # ks) p n =
     (if n = len \<and> take n p = label then (Some ch, chlen) else keylabel_loop ks p n)"

definition map_convert_keylabel :: "string \<Rightarrow> nat \<Rightarrow> string option \<times> nat" where
  "map_convert_keylabel p n = keylabel_loop keylabels p n"

text \<open>
  What one round of the \<^verbatim>\<open>for\<close> loop of \<^verbatim>\<open>map_convert_keys\<close> finds at a \<^verbatim>\<open><\<close>: the
  bytes to append (\<open>raw\<close>, \<open>rawlen\<close>) for the \<open>symlen\<close> scanned bytes.
\<close>

definition convert_symbol :: "string \<Rightarrow> nat \<Rightarrow> string option \<times> nat" where
  "convert_symbol p symlen =
     (let (raw, rawlen) =
        (if p ! (symlen - 1) = CHR ''>'' then
           (let (raw, rawlen) =
              (if symlen = 5 \<and> p ! 2 = CHR ''-'' then
                 (if p ! 1 = CHR ''C'' then
                    (if (0x41::int) \<le> of_char (p ! 3) \<and> of_char (p ! 3) \<le> (0x5d::int)
                     then (Some [char_of (of_char (p ! 3) - (0x40::int))], 1)
                     else if (0x61::int) \<le> of_char (p ! 3) \<and> of_char (p ! 3) \<le> (0x7a::int)
                     then (Some [char_of (of_char (p ! 3) - (0x60::int))], 1)
                     else (None, 0))
                  else (None, 0))
               else (None, 0))
            in if raw = None then map_convert_keylabel p symlen else (raw, rawlen))
         else (None, 0))
      in if rawlen = 0 then (Some p, symlen) else (raw, rawlen))"

lemma scan_label_ge: "symlen \<le> scan_label p symlen"
proof (induction p symlen rule: scan_label.induct)
  case (1 p symlen)
  show ?case
    using "1.IH" by (subst scan_label.simps) (auto split: if_splits)
qed

text \<open>
  The \<^verbatim>\<open>for (p = in; p < &in[inlen]; p++)\<close> loop of \<^verbatim>\<open>map_convert_keys\<close>, with the
  \<^verbatim>\<open>GString\<close> and \<^verbatim>\<open>*len\<close> as accumulators.
\<close>

function (sequential) convert_loop :: "string \<Rightarrow> string \<times> nat \<Rightarrow> string \<times> nat" where
  "convert_loop [] (str, len) = (str, len)"
| "convert_loop (c # rest) (str, len) =
     (if c \<noteq> CHR ''<'' then convert_loop rest (str @ [c], len + 1)
      else
        (let symlen = scan_label (c # rest) 1;
             (raw, rawlen) = convert_symbol (c # rest) symlen
         in convert_loop (drop symlen (c # rest))
              (str @ (case raw of None \<Rightarrow> [] | Some r \<Rightarrow> take rawlen r), len + rawlen)))"
  by pat_completeness auto
termination
proof (relation "measure (\<lambda>(p, acc). length p)")
  show "wf (measure (\<lambda>(p, acc). length p))" by simp
next
  fix c :: char and rest str :: string and len :: nat
  show "((rest, str @ [c], len + 1), c # rest, str, len) \<in> measure (\<lambda>(p, acc). length p)"
    by simp
next
  fix c :: char and rest str :: string and len x :: nat and xa :: "string option \<times> nat" and  xb y
  assume "x = scan_label (c # rest) 1"
  then have "1 \<le> x" using scan_label_ge [of 1 "c # rest"] by simp
  then show "((drop x (c # rest), str @ (case xb of None \<Rightarrow> [] | Some r \<Rightarrow> take y r), len + y),
              c # rest, str, len) \<in> measure (\<lambda>(p, acc). length p)"
    by simp
qed

declare convert_loop.simps [simp del]

text \<open>\<^verbatim>\<open>map_convert_keys(in, inlen, &len)\<close> with \<open>inlen = strlen(in)\<close>: the pair (dest, len).\<close>

definition map_convert_keys :: "string \<Rightarrow> string \<times> nat" where
  "map_convert_keys inp = convert_loop inp ([], 0)"

section \<open>The mapping table and the resolution state\<close>

text \<open>
  The file-static \<^verbatim>\<open>struct { GSList *list; char queue[MAP_QUEUE_SIZE]; int qlen; int resolved;
  char showbuf[12]; int slen; guint timout_id; } map\<close>. \<^verbatim>\<open>MAP_QUEUE_SIZE\<close> is declared outside
  map.c: it is the length of the list \<open>queue\<close>, and \<^verbatim>\<open>LENGTH(map.queue)\<close> is
  \<open>length (queue m)\<close>. The list \<open>showbuf\<close> has length 12.
\<close>

record map_state =
  list :: "Map list"
  queue :: string
  qlen :: int
  resolved :: int
  showbuf :: string
  slen :: int
  timout_id :: nat

text \<open>
  Modelled from the spec: the enumeration \<^verbatim>\<open>MapState\<close> is declared in map.h, which is
  not among the sources. Its values are the three results the spec names (\<open>DONE\<close>,
  \<open>NO_MATCH\<close>, \<open>AMBIGUOUS\<close>), under the names map.c returns.
\<close>

datatype MapState = MAP_DONE | MAP_AMBIGUOUS | MAP_NOMATCH

text \<open>
  Modelled from the spec: the type \<^verbatim>\<open>VbResult\<close> is declared in main.h, which is not among
  the sources. The consumer reports whether it still awaits more keys: map.c compares
  its result with \<^verbatim>\<open>RESULT_MORE\<close> only, so every other result is one value here.
\<close>

datatype VbResult = RESULT_MORE | RESULT_OTHER

text \<open>
  What map.c reads and writes of the global \<^verbatim>\<open>vb\<close> (declared in main.h): the mode
  identifier \<^verbatim>\<open>vb.mode->id\<close>, the bit \<^verbatim>\<open>FLAG_NOMAP\<close> of \<^verbatim>\<open>vb.mode->flags\<close> (the flag
  "do not remap the next key", the only bit map.c reads or writes), and \<open>rest\<close> for
  everything else the key handler of the mode works on.
\<close>

record 'c vb_core =
  mode_id :: char
  flag_nomap :: bool
  rest :: 'c

text \<open>
  The surroundings of the engine: \<^verbatim>\<open>vb\<close>, the text of the label
  \<^verbatim>\<open>vb.gui.statusbar.cmd\<close>, the timeout sources pending in the GLib main loop with the
  next source id, and \<open>sent\<close>, the keys handed to \<^verbatim>\<open>mode_handle_key\<close> so far, in order.
\<close>

record 'c world =
  vb :: "'c vb_core"
  cmd_text :: string
  timeouts :: "nat list"
  next_id :: nat
  sent :: string

text \<open>
  The parts used by map.c that are defined elsewhere are parameters: the macros
  \<^verbatim>\<open>IS_CTRL\<close> and \<^verbatim>\<open>CTRL\<close> (main.h), and \<^verbatim>\<open>mode_handle_key\<close> (mode.c), which may change
  the mode and the state of its own but does not touch the static \<^verbatim>\<open>map\<close>.
\<close>

record 'c ext =
  IS_CTRL :: "char \<Rightarrow> bool"
  CTRL :: "char \<Rightarrow> char"
  mode_handle_key :: "char \<Rightarrow> 'c vb_core \<Rightarrow> VbResult \<times> 'c vb_core"

text \<open>An access outside an array is undefined in C; the model stops there.\<close>

datatype fault = OutOfBounds

definition rd :: "string \<Rightarrow> int \<Rightarrow> fault + char" where
  "rd a i = (if 0 \<le> i \<and> i < int (length a) then Inr (a ! nat i) else Inl OutOfBounds)"

definition wr :: "string \<Rightarrow> int \<Rightarrow> char \<Rightarrow> fault + string" where
  "wr a i c = (if 0 \<le> i \<and> i < int (length a) then Inr (a[nat i := c]) else Inl OutOfBounds)"

subsection \<open>map\_insert and map\_delete\<close>

definition map_insert :: "string \<Rightarrow> string \<Rightarrow> char \<Rightarrow> map_state \<Rightarrow> map_state" where
  "map_insert inp mp md m =
     (let (lhs, inlen) = map_convert_keys inp;
          (rhs, mappedlen) = map_convert_keys mp;
          new = \<lparr>inkeys = lhs, inlen = int inlen, mapped = rhs, mappedlen = int mappedlen, mode = md\<rparr>
      in m\<lparr>list := new # list m\<rparr>)"

text \<open>
  The loop of \<^verbatim>\<open>map_delete\<close>: the list without the first record that matches, and the
  returned flag. \<^verbatim>\<open>strcmp\<close> of two C strings is equality of their bytes.
\<close>

fun delete_loop :: "Map list \<Rightarrow> char \<Rightarrow> nat \<Rightarrow> string \<Rightarrow> Map list \<times> bool" where
  "delete_loop [] md len lhs = ([], False)"
| "delete_loop (m # l) md len lhs =
     (if mode m = md \<and> inlen m = int len \<and> inkeys m = lhs then (l, True)
      else (let (l', found) = delete_loop l md len lhs in (m # l', found)))"

definition map_delete :: "string \<Rightarrow> char \<Rightarrow> map_state \<Rightarrow> map_state \<times> bool" where
  "map_delete inp md m =
     (let (lhs, len) = map_convert_keys inp;
          (l', found) = delete_loop (list m) md len lhs
      in (m\<lparr>list := l'\<rparr>, found))"

subsection \<open>showcmd\<close>

text \<open>One round of the \<^verbatim>\<open>while\<close> loop of \<^verbatim>\<open>showcmd\<close>: the key written to \<^verbatim>\<open>showbuf\<close>.\<close>

definition show_key :: "'c ext \<Rightarrow> char \<Rightarrow> map_state \<Rightarrow> fault + map_state" where
  "show_key X key m =
     (if IS_CTRL X key then
        (case wr (showbuf m) (slen m) CHR ''^'' of
           Inl e \<Rightarrow> Inl e
         | Inr b \<Rightarrow>
             (case wr b (slen m + 1) (CTRL X key) of
                Inl e \<Rightarrow> Inl e
              | Inr b' \<Rightarrow> Inr (m\<lparr>showbuf := b', slen := slen m + 2\<rparr>)))
      else
        (case wr (showbuf m) (slen m) key of
           Inl e \<Rightarrow> Inl e
         | Inr b \<Rightarrow> Inr (m\<lparr>showbuf := b, slen := slen m + 1\<rparr>)))"

lemma show_key_slen:
  "show_key X key m = Inr m' \<Longrightarrow> slen m < slen m'"
  by (auto simp: show_key_def split: if_splits sum.splits)

text \<open>
  \<^verbatim>\<open>while (keylen-- && map.slen < max) { char key = *keys++; ... }\<close>; \<open>keys\<close> is the array
  the pointer points into and \<open>k\<close> the position of the pointer.
\<close>

function showcmd_loop :: "'c ext \<Rightarrow> string \<Rightarrow> int \<Rightarrow> int \<Rightarrow> int \<Rightarrow> map_state \<Rightarrow> fault + map_state" where
  "showcmd_loop X keys k keylen mx m =
     (if keylen \<noteq> 0 \<and> slen m < mx then
        (case rd keys k of
           Inl e \<Rightarrow> Inl e
         | Inr key \<Rightarrow>
             (case show_key X key m of
                Inl e \<Rightarrow> Inl e
              | Inr m' \<Rightarrow> showcmd_loop X keys (k + 1) (keylen - 1) mx m'))
      else Inr m)"
  by pat_completeness auto
termination
  by (relation "measure (\<lambda>(X, keys, k, keylen, mx, m). nat (mx - slen m))")
     (auto dest: show_key_slen)

declare showcmd_loop.simps [simp del]

definition showcmd :: "'c ext \<Rightarrow> string \<Rightarrow> int \<Rightarrow> bool \<Rightarrow> map_state \<Rightarrow> 'c world \<Rightarrow> fault + (map_state \<times> 'c world)" where
  "showcmd X keys keylen app m w =
     (let mx = int (length (showbuf m)) - 2;
          m1 = (if \<not> app then m\<lparr>slen := 0\<rparr> else m)
      in case (if keylen = 0 then
                 (case wr (showbuf m1) 0 NUL of
                    Inl e \<Rightarrow> Inl e
                  | Inr b \<Rightarrow> Inr (m1\<lparr>showbuf := b, slen := 0\<rparr>))
               else
                 (case showcmd_loop X keys 0 keylen mx m1 of
                    Inl e \<Rightarrow> Inl e
                  | Inr m2 \<Rightarrow>
                      (case wr (showbuf m2) (slen m2) NUL of
                         Inl e \<Rightarrow> Inl e
                       | Inr b \<Rightarrow> Inr (m2\<lparr>showbuf := b\<rparr>)))) of
           Inl e \<Rightarrow> Inl e
         | Inr m3 \<Rightarrow> Inr (m3, w\<lparr>cmd_text := takeWhile (\<lambda>c. c \<noteq> NUL) (showbuf m3)\<rparr>))"

lemma show_key_frame:
  "show_key X key m = Inr m' \<Longrightarrow>
     list m' = list m \<and> queue m' = queue m \<and> qlen m' = qlen m \<and> resolved m' = resolved m \<and>
     timout_id m' = timout_id m"
  by (auto simp: show_key_def split: if_splits sum.splits)

lemma showcmd_loop_frame:
  "showcmd_loop X keys k keylen mx m = Inr m' \<Longrightarrow>
     list m' = list m \<and> queue m' = queue m \<and> qlen m' = qlen m \<and> resolved m' = resolved m \<and>
     timout_id m' = timout_id m"
proof (induction X keys k keylen mx m rule: showcmd_loop.induct)
  case (1 X keys k keylen mx m)
  show ?case
  proof (cases "keylen \<noteq> 0 \<and> slen m < mx")
    case False
    with "1.prems" show ?thesis by (simp add: showcmd_loop.simps)
  next
    case True
    from "1.prems" True obtain key m1 where
      k: "rd keys k = Inr key" and s: "show_key X key m = Inr m1"
      and r: "showcmd_loop X keys (k + 1) (keylen - 1) mx m1 = Inr m'"
      by (subst (asm) showcmd_loop.simps) (auto split: sum.splits)
    from "1.IH" [OF True k s r] show_key_frame [OF s] show ?thesis
      by simp
  qed
qed

lemma showcmd_frame:
  "showcmd X keys keylen app m w = Inr (m', w') \<Longrightarrow>
     list m' = list m \<and> queue m' = queue m \<and> qlen m' = qlen m \<and> resolved m' = resolved m \<and>
     timout_id m' = timout_id m \<and>
     vb w' = vb w \<and> timeouts w' = timeouts w \<and> next_id w' = next_id w \<and> sent w' = sent w"
  by (auto simp: showcmd_def Let_def split: if_splits sum.splits dest!: showcmd_loop_frame)

subsection \<open>The loops of map\_handle\_keys\<close>

text \<open>
  \<^verbatim>\<open>while (map.qlen < LENGTH(map.queue) && keylen > 0) map.queue[map.qlen++] = *keys++;\<close>
  The argument is the list of the \<open>keylen\<close> bytes at \<^verbatim>\<open>keys\<close>. \<^verbatim>\<open>LENGTH\<close> is a
  \<^verbatim>\<open>sizeof\<close> quotient, so the comparison is unsigned and fails for a negative \<open>qlen\<close>.
\<close>

fun append_keys :: "string \<Rightarrow> map_state \<Rightarrow> fault + map_state" where
  "append_keys [] m = Inr m"
| "append_keys (key # keys) m =
     (if 0 \<le> qlen m \<and> qlen m < int (length (queue m)) then
        (case wr (queue m) (qlen m) key of
           Inl e \<Rightarrow> Inl e
         | Inr q \<Rightarrow> append_keys keys (m\<lparr>queue := q, qlen := qlen m + 1\<rparr>))
      else Inr m)"

text \<open>\<^verbatim>\<open>for (int i = 0; i < map.qlen; i++) map.queue[i] = map.queue[i + 1];\<close>\<close>

function shift_left :: "string \<Rightarrow> int \<Rightarrow> int \<Rightarrow> fault + string" where
  "shift_left q i n =
     (if i < n then
        (case rd q (i + 1) of
           Inl e \<Rightarrow> Inl e
         | Inr c \<Rightarrow>
             (case wr q i c of
                Inl e \<Rightarrow> Inl e
              | Inr q' \<Rightarrow> shift_left q' (i + 1) n))
      else Inr q)"
  by pat_completeness auto
termination
  by (relation "measure (\<lambda>(q, i, n). nat (n - i))") auto

declare shift_left.simps [simp del]

text \<open>
  The drain loop \<^verbatim>\<open>while (map.resolved > 0)\<close>: pop the first key of the queue, clear
  \<^verbatim>\<open>FLAG_NOMAP\<close>, hand the key to \<^verbatim>\<open>mode_handle_key\<close>, and clear the shown keys
  unless the result is \<^verbatim>\<open>RESULT_MORE\<close>.
\<close>

function drain :: "'c ext \<Rightarrow> map_state \<Rightarrow> 'c world \<Rightarrow> fault + (map_state \<times> 'c world)" where
  "drain X m w =
     (if resolved m > 0 then
        (let m1 = m\<lparr>resolved := resolved m - 1, qlen := qlen m - 1\<rparr> in
         case rd (queue m1) 0 of
           Inl e \<Rightarrow> Inl e
         | Inr qk \<Rightarrow>
             (case shift_left (queue m1) 0 (qlen m1) of
                Inl e \<Rightarrow> Inl e
              | Inr q \<Rightarrow>
                  (let m2 = m1\<lparr>queue := q\<rparr>;
                       (r, v) = mode_handle_key X qk ((vb w)\<lparr>flag_nomap := False\<rparr>);
                       w1 = w\<lparr>vb := v, sent := sent w @ [qk]\<rparr>
                   in case (if r \<noteq> RESULT_MORE then showcmd X [] 0 False m2 w1
                            else Inr (m2, w1)) of
                        Inl e \<Rightarrow> Inl e
                      | Inr (m3, w2) \<Rightarrow> drain X m3 w2)))
      else Inr (m, w))"
  by pat_completeness auto
termination
proof (relation "measure (\<lambda>(X, m, w). nat (resolved m))", goal_cases)
  case 1
  show ?case by simp
next
  case (2 X m w m1 qk q m2 rv r v w1 res m3 w2)
  then show ?case
    by (auto split: if_splits dest!: showcmd_frame)
qed

declare drain.simps [simp del]

text \<open>
  \<^verbatim>\<open>strncmp(s, a + i, n) == 0\<close> for a C string \<open>s\<close> and the array \<open>a\<close>: the bytes
  are compared until they differ, the string ends, or \<open>n\<close> bytes are done.
\<close>

function strncmp :: "string \<Rightarrow> string \<Rightarrow> int \<Rightarrow> int \<Rightarrow> fault + bool" where
  "strncmp s a i n =
     (if n = 0 then Inr True
      else
        (case rd a i of
           Inl e \<Rightarrow> Inl e
         | Inr c2 \<Rightarrow>
             (case s of
                [] \<Rightarrow> Inr (c2 = NUL)
              | c1 # s' \<Rightarrow>
                  if c1 \<noteq> c2 then Inr False
                  else if c1 = NUL then Inr True
                  else strncmp s' a (i + 1) (n - 1))))"
  by pat_completeness auto
termination
  by (relation "measure (\<lambda>(s, a, i, n). length s)") auto

declare strncmp.simps [simp del]

text \<open>
  The \<^verbatim>\<open>for\<close> loop over \<^verbatim>\<open>map.list\<close> in \<^verbatim>\<open>map_handle_keys\<close>, with \<^verbatim>\<open>ambiguous\<close> and
  \<^verbatim>\<open>match\<close> as accumulators (\<open>None\<close> for \<^verbatim>\<open>NULL\<close>).
\<close>

fun lookup_loop :: "'c ext \<Rightarrow> bool \<Rightarrow> Map list \<Rightarrow> int \<times> Map option \<times> map_state \<times> 'c world \<Rightarrow>
    fault + (int \<times> Map option \<times> map_state \<times> 'c world)" where
  "lookup_loop X timeout [] acc = Inr acc"
| "lookup_loop X timeout (mp # l) (ambiguous, match, m, w) =
     (if mode mp \<noteq> mode_id (vb w) then lookup_loop X timeout l (ambiguous, match, m, w)
      else
        (case (if \<not> timeout \<and> inlen mp > qlen m then
                 (case strncmp (inkeys mp) (queue m) 0 (qlen m) of
                    Inl e \<Rightarrow> Inl e
                  | Inr eq \<Rightarrow>
                      if eq then
                        (case showcmd X (queue m) (qlen m) False m w of
                           Inl e \<Rightarrow> Inl e
                         | Inr (m', w') \<Rightarrow> Inr (ambiguous + 1, m', w'))
                      else Inr (ambiguous, m, w))
               else Inr (ambiguous, m, w)) of
           Inl e \<Rightarrow> Inl e
         | Inr (ambiguous', m', w') \<Rightarrow>
             (case (if inlen mp \<le> qlen m' then
                      (case strncmp (inkeys mp) (queue m') 0 (inlen mp) of
                         Inl e \<Rightarrow> Inl e
                       | Inr eq \<Rightarrow>
                           Inr (if eq \<and> (case match of None \<Rightarrow> True
                                          | Some mt \<Rightarrow> inlen mt < inlen mp)
                                then Some mp else match))
                    else Inr match) of
                Inl e \<Rightarrow> Inl e
              | Inr match' \<Rightarrow> lookup_loop X timeout l (ambiguous', match', m', w'))))"

text \<open>
  \<^verbatim>\<open>for (i = map.qlen + mappedlen - inlen, j = map.qlen; j > inlen; ) map.queue[--i] = map.queue[--j];\<close>
\<close>

function make_space :: "string \<Rightarrow> int \<Rightarrow> int \<Rightarrow> int \<Rightarrow> fault + string" where
  "make_space q i j il =
     (if j > il then
        (case rd q (j - 1) of
           Inl e \<Rightarrow> Inl e
         | Inr c \<Rightarrow>
             (case wr q (i - 1) c of
                Inl e \<Rightarrow> Inl e
              | Inr q' \<Rightarrow> make_space q' (i - 1) (j - 1) il))
      else Inr q)"
  by pat_completeness auto
termination
  by (relation "measure (\<lambda>(q, i, j, il). nat (j - il))") auto

declare make_space.simps [simp del]

text \<open>
  \<^verbatim>\<open>for (i = mappedlen, j = inlen; i < map.qlen; ) map.queue[i++] = map.queue[j++];\<close>
\<close>

function delete_keys :: "string \<Rightarrow> int \<Rightarrow> int \<Rightarrow> int \<Rightarrow> fault + string" where
  "delete_keys q i j n =
     (if i < n then
        (case rd q j of
           Inl e \<Rightarrow> Inl e
         | Inr c \<Rightarrow>
             (case wr q i c of
                Inl e \<Rightarrow> Inl e
              | Inr q' \<Rightarrow> delete_keys q' (i + 1) (j + 1) n))
      else Inr q)"
  by pat_completeness auto
termination
  by (relation "measure (\<lambda>(q, i, j, n). nat (n - i))") auto

declare delete_keys.simps [simp del]

text \<open>
  \<^verbatim>\<open>strncpy(q + k, s, n)\<close> for a C string \<open>s\<close>: \<open>n\<close> bytes are written, NUL once the
  string has ended.
\<close>

function strncpy :: "string \<Rightarrow> string \<Rightarrow> int \<Rightarrow> int \<Rightarrow> fault + string" where
  "strncpy q s k n =
     (if n = 0 then Inr q
      else
        (case wr q k (case s of [] \<Rightarrow> NUL | c # _ \<Rightarrow> c) of
           Inl e \<Rightarrow> Inl e
         | Inr q' \<Rightarrow> strncpy q' (tl s) (k + 1) (n - 1)))"
  by pat_completeness auto
termination
  by (relation "measure (\<lambda>(q, s, k, n). nat (int (length q) - k))")
     (auto simp: wr_def split: if_splits)

declare strncpy.simps [simp del]

text \<open>The branch \<^verbatim>\<open>if (match) { ... }\<close>: the matched keys are replaced by the mapped ones.\<close>

definition substitute :: "Map \<Rightarrow> map_state \<Rightarrow> fault + map_state" where
  "substitute mt m =
     (case (if inlen mt < mappedlen mt then
              make_space (queue m) (qlen m + mappedlen mt - inlen mt) (qlen m) (inlen mt)
            else if inlen mt > mappedlen mt then
              delete_keys (queue m) (mappedlen mt) (inlen mt) (qlen m)
            else Inr (queue m)) of
        Inl e \<Rightarrow> Inl e
      | Inr q \<Rightarrow>
          (case strncpy q (mapped mt) 0 (mappedlen mt) of
             Inl e \<Rightarrow> Inl e
           | Inr q' \<Rightarrow>
               Inr (m\<lparr>queue := q', qlen := qlen m + mappedlen mt - inlen mt,
                      resolved := (if inlen mt \<le> mappedlen mt then inlen mt
                                   else mappedlen mt)\<rparr>)))"

text \<open>
  GLib's \<^verbatim>\<open>g_timeout_add\<close> and \<^verbatim>\<open>g_source_remove\<close>: a new source gets the next id
  (ids are greater than 0) and is pending until it is removed.
\<close>

definition g_timeout_add :: "'c world \<Rightarrow> nat \<times> 'c world" where
  "g_timeout_add w =
     (next_id w, w\<lparr>timeouts := next_id w # timeouts w, next_id := next_id w + 1\<rparr>)"

definition g_source_remove :: "nat \<Rightarrow> 'c world \<Rightarrow> 'c world" where
  "g_source_remove i w = w\<lparr>timeouts := removeAll i (timeouts w)\<rparr>"

text \<open>
  A resolution made by the loop: a record of the table was substituted, or the first
  queued key was taken literally. The loop below keeps the resolutions of the call, in
  order, in \<open>steps\<close>, which no branch reads.
\<close>

datatype step = Mapped Map | Literal char

text \<open>
  The lookup of a round: \<^verbatim>\<open>match = NULL; ambiguous = 0;\<close> and, unless \<^verbatim>\<open>FLAG_NOMAP\<close> is
  set, the \<^verbatim>\<open>for\<close> loop over the table.
\<close>

definition lookup :: "'c ext \<Rightarrow> bool \<Rightarrow> map_state \<Rightarrow> 'c world \<Rightarrow>
    fault + (int \<times> Map option \<times> map_state \<times> 'c world)" where
  "lookup X timeout m w =
     (if \<not> flag_nomap (vb w) then lookup_loop X timeout (list m) (0, None, m, w)
      else Inr (0, None, m, w))"

text \<open>The key at \<^verbatim>\<open>map.queue[0]\<close>, for \<open>steps\<close> (NUL for an array of size 0).\<close>

definition first_key :: "map_state \<Rightarrow> char" where
  "first_key m = (case queue m of [] \<Rightarrow> NUL | c # _ \<Rightarrow> c)"

text \<open>
  One round of the loop \<^verbatim>\<open>while (true)\<close> of \<^verbatim>\<open>map_handle_keys\<close>: either the function
  returns (\<open>Return\<close>), or the round ends and the next one starts (\<open>Continue\<close>) with
  the local variable \<^verbatim>\<open>match\<close> as the round has left it.
\<close>

datatype 'c round =
  Return MapState "step list" map_state "'c world"
| Continue "Map option" "step list" map_state "'c world"

definition loop_round :: "'c ext \<Rightarrow> bool \<Rightarrow> Map option \<Rightarrow> step list \<Rightarrow> map_state \<Rightarrow> 'c world \<Rightarrow>
    fault + 'c round" where
  "loop_round X timeout match steps m w =
     (case drain X m w of
        Inl e \<Rightarrow> Inl e
      | Inr (m1, w1) \<Rightarrow>
          if qlen m1 = 0 then
            Inr (Return (if match \<noteq> None then MAP_DONE else MAP_NOMATCH) steps
                   (m1\<lparr>resolved := 0\<rparr>) w1)
          else
            (case lookup X timeout m1 w1 of
               Inl e \<Rightarrow> Inl e
             | Inr (ambiguous, match', m2, w2) \<Rightarrow>
                 if ambiguous \<noteq> 0 then Inr (Return MAP_AMBIGUOUS steps m2 w2)
                 else
                   (case match' of
                      Some mt \<Rightarrow>
                        (case substitute mt m2 of
                           Inl e \<Rightarrow> Inl e
                         | Inr m3 \<Rightarrow> Inr (Continue match' (steps @ [Mapped mt]) m3 w2))
                    | None \<Rightarrow>
                        (case showcmd X (queue m2) 1 True (m2\<lparr>resolved := 1\<rparr>) w2 of
                           Inl e \<Rightarrow> Inl e
                         | Inr (m3, w3) \<Rightarrow>
                             Inr (Continue None (steps @ [Literal (first_key m2)]) m3 w3)))))"

text \<open>
  The loop \<^verbatim>\<open>while (true)\<close>. It may run forever: \<open>None\<close> is the call that does not
  return.
\<close>

partial_function (option) resolve_loop ::
    "'c ext \<Rightarrow> bool \<Rightarrow> Map option \<Rightarrow> step list \<Rightarrow> map_state \<Rightarrow> 'c world \<Rightarrow>
     (fault + (MapState \<times> step list \<times> map_state \<times> 'c world)) option" where
  "resolve_loop X timeout match steps m w =
     (case loop_round X timeout match steps m w of
        Inl e \<Rightarrow> Some (Inl e)
      | Inr (Return r steps' m' w') \<Rightarrow> Some (Inr (r, steps', m', w'))
      | Inr (Continue match' steps' m' w') \<Rightarrow> resolve_loop X timeout match' steps' m' w')"

declare resolve_loop.simps [code]

text \<open>
  The branch \<^verbatim>\<open>if (!timeout)\<close>: a pending timeout source is removed and a new one is
  added.
\<close>

definition restart_timer :: "map_state \<Rightarrow> 'c world \<Rightarrow> map_state \<times> 'c world" where
  "restart_timer m w =
     (let w' = (if timout_id m \<noteq> 0 then g_source_remove (timout_id m) w else w);
          (i, w'') = g_timeout_add w'
      in (m\<lparr>timout_id := i\<rparr>, w''))"

text \<open>
  \<^verbatim>\<open>map_handle_keys(keys, keylen)\<close>; the argument is the list of the \<open>keylen\<close> bytes at
  \<^verbatim>\<open>keys\<close>, so the timeout call \<^verbatim>\<open>keylen == 0\<close> is the call with the empty list.
\<close>

definition map_handle_keys :: "'c ext \<Rightarrow> string \<Rightarrow> map_state \<Rightarrow> 'c world \<Rightarrow>
    (fault + (MapState \<times> step list \<times> map_state \<times> 'c world)) option" where
  "map_handle_keys X keys m w =
     (let timeout = (keys = []);
          (m1, w1) = (if \<not> timeout then restart_timer m w else (m, w))
      in case append_keys keys m1 of
           Inl e \<Rightarrow> Some (Inl e)
         | Inr m2 \<Rightarrow> resolve_loop X timeout None [] m2 w1)"

text \<open>\<^verbatim>\<open>map_timeout\<close>: the timeout source calls \<^verbatim>\<open>map_handle_keys("", 0)\<close>.\<close>

definition map_timeout :: "'c ext \<Rightarrow> map_state \<Rightarrow> 'c world \<Rightarrow>
    (fault + (MapState \<times> step list \<times> map_state \<times> 'c world)) option" where
  "map_timeout X m w = map_handle_keys X [] m w"

section \<open>An example configuration\<close>

text \<open>
  Concrete values at which the theorems below are instantiated: a key handler that
  completes a command with every key, a queue of four bytes, the mode \<open>n\<close>.
\<close>

definition ex_ext :: "unit ext" where
  "ex_ext = \<lparr>IS_CTRL = (\<lambda>c. of_char c < (0x20::int)),
             CTRL = (\<lambda>c. char_of (of_char c + (0x40::int))),
             mode_handle_key = (\<lambda>k v. (RESULT_OTHER, v))\<rparr>"

definition ex_map :: map_state where
  "ex_map = \<lparr>list = [], queue = [NUL, NUL, NUL, NUL], qlen = 0, resolved = 0,
             showbuf = [NUL, NUL, NUL, NUL, NUL, NUL, NUL, NUL, NUL, NUL, NUL, NUL],
             slen = 0, timout_id = 0\<rparr>"

definition ex_world :: "unit world" where
  "ex_world = \<lparr>vb = \<lparr>mode_id = CHR ''n'', flag_nomap = False, rest = ()\<rparr>, cmd_text = [],
               timeouts = [], next_id = 1, sent = []\<rparr>"

text \<open>The records \<open>a \<rightarrow> 1\<close> and \<open>ab \<rightarrow> 2\<close> of a mode.\<close>

definition rec_a :: "char \<Rightarrow> Map" where
  "rec_a md = \<lparr>inkeys = ''a'', inlen = 1, mapped = ''1'', mappedlen = 1, mode = md\<rparr>"

definition rec_ab :: "char \<Rightarrow> Map" where
  "rec_ab md = \<lparr>inkeys = ''ab'', inlen = 2, mapped = ''2'', mappedlen = 1, mode = md\<rparr>"

text \<open>The example state with the two records, as two calls of \<^verbatim>\<open>map_insert\<close> build it.\<close>

definition ex_table :: map_state where
  "ex_table = ex_map\<lparr>list := [rec_ab CHR ''n'', rec_a CHR ''n'']\<rparr>"

text \<open>A record whose rhs ends with its own lhs.\<close>

definition rec_loop :: "char \<Rightarrow> Map" where
  "rec_loop md = \<lparr>inkeys = ''a'', inlen = 1, mapped = ''ba'', mappedlen = 2, mode = md\<rparr>"

text \<open>The state in which every round of the loop on \<open>a \<rightarrow> ba\<close> starts and ends.\<close>

definition loop_state :: map_state where
  "loop_state = ex_map\<lparr>list := [rec_loop CHR ''n''], queue := [CHR ''b'', CHR ''a'', NUL, NUL],
     qlen := 2, resolved := 1, timout_id := 1\<rparr>"

text \<open>The surroundings during that loop, after the keys \<open>s\<close> have been sent.\<close>

definition loop_world :: "string \<Rightarrow> unit world" where
  "loop_world s = ex_world\<lparr>timeouts := [1], next_id := 2, sent := s\<rparr>"

text \<open>The example state with the records \<open>a \<rightarrow> bc\<close> and \<open>c \<rightarrow> d\<close>, the second inserted last.\<close>

definition chain_table :: map_state where
  "chain_table = ex_map\<lparr>list :=
     [\<lparr>inkeys = ''c'', inlen = 1, mapped = ''d'', mappedlen = 1, mode = CHR ''n''\<rparr>,
      \<lparr>inkeys = ''a'', inlen = 1, mapped = ''bc'', mappedlen = 2, mode = CHR ''n''\<rparr>]\<rparr>"

text \<open>Weights for that table: \<open>a\<close> weighs 2, every other key 1.\<close>

definition chain_weight :: "char \<Rightarrow> nat" where
  "chain_weight c = (if c = CHR ''a'' then 2 else 1)"

text \<open>A queue of four bytes, full.\<close>

definition full_state :: map_state where
  "full_state = ex_map\<lparr>list := [rec_loop CHR ''n''], queue := ''aaaa'', qlen := 4\<rparr>"

text \<open>Two records inserted with the same lhs and mode, and the key \<open>a\<close> queued.\<close>

definition dup_state :: map_state where
  "dup_state =
     (map_insert ''a'' ''9'' CHR ''n'' (map_insert ''a'' ''1'' CHR ''n'' ex_map))
       \<lparr>queue := [CHR ''a'', NUL, NUL, NUL], qlen := 1\<rparr>"

section \<open>Notions used in the statements\<close>

text \<open>The test of \<^verbatim>\<open>map_delete\<close> on a record: same mode, same length, same bytes.\<close>

definition lhs_matches :: "char \<Rightarrow> nat \<Rightarrow> string \<Rightarrow> Map \<Rightarrow> bool" where
  "lhs_matches md len lhs r \<longleftrightarrow> mode r = md \<and> inlen r = int len \<and> inkeys r = lhs"

text \<open>The show buffer has its 12 bytes and \<open>slen\<close> points into it.\<close>

definition buf_ok :: "map_state \<Rightarrow> bool" where
  "buf_ok m \<longleftrightarrow> length (showbuf m) = 12 \<and> 0 \<le> slen m \<and> slen m \<le> 11"

text \<open>The invariant of the queue: \<open>0 \<le> resolved \<le> qlen \<le> capacity\<close>.\<close>

definition queue_ok :: "map_state \<Rightarrow> bool" where
  "queue_ok m \<longleftrightarrow> 0 \<le> resolved m \<and> resolved m \<le> qlen m \<and> qlen m \<le> int (length (queue m))"

text \<open>
  A record as \<^verbatim>\<open>map_insert\<close> builds it from two C strings: the lengths are the lengths
  of the byte sequences, which hold no NUL.
\<close>

definition wf_map :: "Map \<Rightarrow> bool" where
  "wf_map r \<longleftrightarrow> inlen r = int (length (inkeys r)) \<and> mappedlen r = int (length (mapped r)) \<and>
     NUL \<notin> set (inkeys r) \<and> NUL \<notin> set (mapped r)"

text \<open>
  A record of mode \<open>md\<close> whose lhs is no longer than the \<open>n\<close> queued bytes of \<open>q\<close> and
  equal to the leading bytes of the queue.
\<close>

definition full_match :: "string \<Rightarrow> int \<Rightarrow> char \<Rightarrow> Map \<Rightarrow> bool" where
  "full_match q n md r \<longleftrightarrow> mode r = md \<and> inlen r \<le> n \<and> inkeys r = take (nat (inlen r)) q"

text \<open>
  A record of mode \<open>md\<close> whose lhs is longer than the \<open>n\<close> queued bytes of \<open>q\<close> and starts
  with them.
\<close>

definition ambiguous_match :: "string \<Rightarrow> int \<Rightarrow> char \<Rightarrow> Map \<Rightarrow> bool" where
  "ambiguous_match q n md r \<longleftrightarrow> mode r = md \<and> n < inlen r \<and> take (nat n) (inkeys r) = take (nat n) q"

text \<open>The candidate kept from a list of full matches: a later one only when strictly longer.\<close>

fun best :: "Map option \<Rightarrow> Map list \<Rightarrow> Map option" where
  "best acc [] = acc"
| "best acc (r # cs) =
     best (if (case acc of None \<Rightarrow> True | Some a \<Rightarrow> inlen a < inlen r) then Some r else acc) cs"

text \<open>Two states of the engine that differ at most in the show buffer.\<close>

definition same_engine :: "map_state \<Rightarrow> map_state \<Rightarrow> bool" where
  "same_engine m m' \<longleftrightarrow> list m' = list m \<and> queue m' = queue m \<and> qlen m' = qlen m \<and>
     resolved m' = resolved m \<and> timout_id m' = timout_id m"

text \<open>Two states of the surroundings that differ at most in the text of the label.\<close>

definition same_world :: "'c world \<Rightarrow> 'c world \<Rightarrow> bool" where
  "same_world w w' \<longleftrightarrow> vb w' = vb w \<and> timeouts w' = timeouts w \<and> next_id w' = next_id w \<and>
     sent w' = sent w"

text \<open>The number of ambiguous matches the lookup counts; none on a timeout.\<close>

definition ambiguous_count :: "bool \<Rightarrow> string \<Rightarrow> int \<Rightarrow> char \<Rightarrow> Map list \<Rightarrow> int" where
  "ambiguous_count t q n md l =
     (if t then 0 else int (length (filter (ambiguous_match q n md) l)))"

text \<open>No record of the table has a negative length.\<close>

definition lens_nonneg :: "map_state \<Rightarrow> bool" where
  "lens_nonneg m \<longleftrightarrow> (\<forall>r\<in>set (list m). 0 \<le> inlen r \<and> 0 \<le> mappedlen r)"

text \<open>The last resolution of a call was the substitution of a record.\<close>

definition last_mapped :: "step list \<Rightarrow> bool" where
  "last_mapped st \<longleftrightarrow> st \<noteq> [] \<and> (case last st of Mapped r \<Rightarrow> True | Literal c \<Rightarrow> False)"

text \<open>No record of mode \<open>md\<close> has an lhs that is empty or starts with the key \<open>k\<close>.\<close>

definition no_prefix_of :: "char \<Rightarrow> char \<Rightarrow> Map list \<Rightarrow> bool" where
  "no_prefix_of k md l \<longleftrightarrow> (\<forall>r\<in>set l. mode r = md \<longrightarrow> inkeys r \<noteq> [] \<and> hd (inkeys r) \<noteq> k)"

text \<open>The table holds exactly the records \<open>a \<rightarrow> 1\<close> and \<open>ab \<rightarrow> 2\<close> of mode \<open>md\<close>.\<close>

definition two_maps :: "char \<Rightarrow> map_state \<Rightarrow> bool" where
  "two_maps md m \<longleftrightarrow> list m = [rec_ab md, rec_a md] \<or> list m = [rec_a md, rec_ab md]"

text \<open>The state after the key \<open>a\<close> has been queued and found ambiguous.\<close>

definition pending_a :: "char \<Rightarrow> map_state \<Rightarrow> 'c world \<Rightarrow> bool" where
  "pending_a md m w \<longleftrightarrow> two_maps md m \<and> qlen m = 1 \<and> resolved m = 0 \<and> 3 \<le> length (queue m) \<and>
     queue m ! 0 = CHR ''a'' \<and> buf_ok m \<and> mode_id (vb w) = md \<and> \<not> flag_nomap (vb w)"

text \<open>The sum of the weights \<open>wt\<close> of the bytes of \<open>s\<close>.\<close>

definition weight :: "(char \<Rightarrow> nat) \<Rightarrow> string \<Rightarrow> nat" where
  "weight wt s = sum_list (map wt s)"


text \<open>
  Every key has a weight greater than 0, and for every record the bytes of the rhs beyond
  the length of the lhs, which a substitution leaves in the queue for the next lookup,
  weigh less than the lhs. The lhs of such a record is not empty.
\<close>

definition weighted_table :: "(char \<Rightarrow> nat) \<Rightarrow> map_state \<Rightarrow> bool" where
  "weighted_table wt m \<longleftrightarrow>
     (\<forall>c. 0 < wt c) \<and>
     (\<forall>r\<in>set (list m). wf_map r \<and>
        weight wt (drop (nat (inlen r)) (mapped r)) < weight wt (inkeys r))"


text \<open>A token \<^verbatim>\<open><C-x>\<close> that \<^verbatim>\<open>map_convert_keys\<close> turns into a control byte.\<close>

definition ctrl_token :: "string \<Rightarrow> bool" where
  "ctrl_token t \<longleftrightarrow> length t = 5 \<and> t ! 2 = CHR ''-'' \<and> t ! 1 = CHR ''C'' \<and>
     ((0x41::int) \<le> of_char (t ! 3) \<and> of_char (t ! 3) \<le> (0x5d::int) \<or>
      (0x61::int) \<le> of_char (t ! 3) \<and> of_char (t ! 3) \<le> (0x7a::int))"

text \<open>
  The body of a token \<^verbatim>\<open><body>\<close> that is scanned up to its \<^verbatim>\<open>>\<close> and is neither a control
  token nor one of the named keys.
\<close>

definition plain_token :: "string \<Rightarrow> bool" where
  "plain_token body \<longleftrightarrow>
     CHR ''<'' \<notin> set body \<and> CHR '' '' \<notin> set body \<and> CHR ''>'' \<notin> set body \<and>
     \<not> ctrl_token (CHR ''<'' # body @ ''>'') \<and>
     body \<noteq> ''CR'' \<and> body \<noteq> ''Tab'' \<and> body \<noteq> ''Esc''"

section \<open>The loops of the engine, one by one\<close>

lemmas convert_eval =
  map_convert_keys_def convert_loop.simps scan_label.simps convert_symbol_def
  map_convert_keylabel_def keylabels_def char_of_def

lemma delete_loop_found:
  "delete_loop l md len lhs = (l', True) \<Longrightarrow>
     \<exists>pre r post. l = pre @ r # post \<and> (\<forall>x\<in>set pre. \<not> lhs_matches md len lhs x) \<and>
        lhs_matches md len lhs r \<and> l' = pre @ post"
proof (induction l arbitrary: l')
  case Nil
  then show ?case by simp
next
  case (Cons a l)
  show ?case
  proof (cases "lhs_matches md len lhs a")
    case True
    with Cons.prems have "l' = l" by (simp add: lhs_matches_def)
    with True show ?thesis by (intro exI [of _ "[]"] exI [of _ a] exI [of _ l]) simp
  next
    case False
    with Cons.prems obtain l'' where d: "delete_loop l md len lhs = (l'', True)" and l': "l' = a # l''"
      by (auto simp: lhs_matches_def split: prod.splits)
    from Cons.IH [OF d] obtain pre r post where
      "l = pre @ r # post" "\<forall>x\<in>set pre. \<not> lhs_matches md len lhs x" "lhs_matches md len lhs r"
      "l'' = pre @ post" by blast
    with False l' show ?thesis
      by (intro exI [of _ "a # pre"] exI [of _ r] exI [of _ post]) simp
  qed
qed

lemma delete_loop_not_found:
  "delete_loop l md len lhs = (l', False) \<Longrightarrow> l' = l \<and> (\<forall>x\<in>set l. \<not> lhs_matches md len lhs x)"
  by (induction l arbitrary: l') (auto simp: lhs_matches_def split: if_splits prod.splits)

lemma rd_Inr: "0 \<le> i \<Longrightarrow> i < int (length a) \<Longrightarrow> rd a i = Inr (a ! nat i)"
  by (simp add: rd_def)

lemma wr_Inr: "0 \<le> i \<Longrightarrow> i < int (length a) \<Longrightarrow> wr a i c = Inr (a[nat i := c])"
  by (simp add: wr_def)

lemma wr_length: "wr a i c = Inr a' \<Longrightarrow> length a' = length a"
  by (auto simp: wr_def split: if_splits)

lemma shift_left_ok:
  "0 \<le> i \<Longrightarrow> n < int (length q) \<Longrightarrow>
     \<exists>q'. shift_left q i n = Inr q' \<and> length q' = length q \<and>
       (\<forall>k<length q. q' ! k = (if i \<le> int k \<and> int k < n then q ! (k + 1) else q ! k))"
proof (induction q i n rule: shift_left.induct)
  case (1 q i n)
  show ?case
  proof (cases "i < n")
    case False
    then show ?thesis by (subst shift_left.simps) auto
  next
    case True
    let ?c = "q ! nat (i + 1)"
    let ?q1 = "q[nat i := ?c]"
    from True 1(2,3) have r: "rd q (i + 1) = Inr ?c" by (simp add: rd_Inr)
    from True 1(2,3) have w: "wr q i ?c = Inr ?q1" by (simp add: wr_Inr)
    from 1(2,3) True have "0 \<le> i + 1" "n < int (length ?q1)" by simp_all
    from "1.IH" [OF True r w this] obtain q' where
      s: "shift_left ?q1 (i + 1) n = Inr q'" and l: "length q' = length ?q1"
      and k: "\<forall>k<length ?q1. q' ! k = (if i + 1 \<le> int k \<and> int k < n then ?q1 ! (k + 1) else ?q1 ! k)"
      by blast
    have "shift_left q i n = Inr q'"
      using True r w s by (subst shift_left.simps) simp
    moreover have "length q' = length q" using l by simp
    moreover have "\<forall>k<length q. q' ! k = (if i \<le> int k \<and> int k < n then q ! (k + 1) else q ! k)"
    proof (intro allI impI)
      fix k assume kl: "k < length q"
      show "q' ! k = (if i \<le> int k \<and> int k < n then q ! (k + 1) else q ! k)"
      proof (cases "int k = i")
        case True
        then have "nat i = k" by simp
        with True k kl \<open>i < n\<close> show ?thesis by (simp add: nat_add_distrib)
      next
        case False
        then have "nat i \<noteq> k" "nat i \<noteq> k + 1 \<or> \<not> (i + 1 \<le> int k)" using 1(2) by auto
        with False k kl show ?thesis by (auto simp: nth_list_update)
      qed
    qed
    ultimately show ?thesis by blast
  qed
qed

lemma showcmd_clear:
  "0 < length (showbuf m) \<Longrightarrow>
   showcmd X keys 0 False m w =
     Inr (m\<lparr>slen := 0, showbuf := (showbuf m)[0 := NUL]\<rparr>,
          w\<lparr>cmd_text := takeWhile (\<lambda>c. c \<noteq> NUL) ((showbuf m)[0 := NUL])\<rparr>)"
  by (simp add: showcmd_def wr_def)

lemma take_shift:
  assumes "length q' = length q" and "n < length q"
    and "\<forall>k<n. q' ! k = q ! (k + 1)"
  shows "take n q' = take n (tl q)"
proof (rule nth_equalityI)
  show "length (take n q') = length (take n (tl q))" using assms by simp
next
  fix i assume "i < length (take n q')"
  with assms show "take n q' ! i = take n (tl q) ! i" by (simp add: nth_tl)
qed

lemma drain_ok:
  assumes "queue_ok m" and "0 < length (showbuf m)"
  shows "\<exists>m' w'. drain X m w = Inr (m', w') \<and> resolved m' = 0 \<and>
           qlen m' = qlen m - resolved m \<and> length (queue m') = length (queue m) \<and>
           list m' = list m \<and> timout_id m' = timout_id m \<and>
           length (showbuf m') = length (showbuf m) \<and> (slen m' = slen m \<or> slen m' = 0) \<and>
           (\<forall>k. int k < qlen m' \<longrightarrow> queue m' ! k = queue m ! (k + nat (resolved m))) \<and>
           sent w' = sent w @ take (nat (resolved m)) (queue m) \<and>
           timeouts w' = timeouts w \<and> next_id w' = next_id w"
  using assms
proof (induction "nat (resolved m)" arbitrary: m w)
  case 0
  then have "resolved m = 0" by (simp add: queue_ok_def)
  then show ?case by (subst drain.simps) simp
next
  case (Suc n)
  from Suc.hyps(2) have pos: "0 < resolved m" and n: "n = nat (resolved m - 1)" by simp_all
  from Suc.prems pos have ql: "resolved m \<le> qlen m" "qlen m \<le> int (length (queue m))"
    and ne: "0 < length (queue m)"
    by (auto simp: queue_ok_def)
  let ?q = "queue m"
  have r0: "rd ?q 0 = Inr (?q ! 0)" using ne by (simp add: rd_def)
  from shift_left_ok [of 0 "qlen m - 1" ?q] ql obtain q' where
    sh: "shift_left ?q 0 (qlen m - 1) = Inr q'" and lq: "length q' = length ?q"
    and nq: "\<forall>k<length ?q. q' ! k = (if int k < qlen m - 1 then ?q ! (k + 1) else ?q ! k)"
    by auto
  let ?m2 = "m\<lparr>resolved := resolved m - 1, qlen := qlen m - 1, queue := q'\<rparr>"
  obtain r v where hk: "mode_handle_key X (?q ! 0) ((vb w)\<lparr>flag_nomap := False\<rparr>) = (r, v)"
    by force
  let ?w1 = "w\<lparr>vb := v, sent := sent w @ [?q ! 0]\<rparr>"
  let ?res = "if r \<noteq> RESULT_MORE then showcmd X [] 0 False ?m2 ?w1 else Inr (?m2, ?w1)"
  have "\<exists>m3 w2. ?res = Inr (m3, w2) \<and> queue m3 = q' \<and> resolved m3 = resolved m - 1 \<and>
          qlen m3 = qlen m - 1 \<and> list m3 = list m \<and> timout_id m3 = timout_id m \<and>
          length (showbuf m3) = length (showbuf m) \<and> (slen m3 = slen m \<or> slen m3 = 0) \<and>
          sent w2 = sent w @ [?q ! 0] \<and> timeouts w2 = timeouts w \<and> next_id w2 = next_id w"
    using Suc.prems(2) by (cases "r = RESULT_MORE") (simp_all add: showcmd_clear)
  then obtain m3 w2 where res: "?res = Inr (m3, w2)" and m3: "queue m3 = q'"
    "resolved m3 = resolved m - 1" "qlen m3 = qlen m - 1" "list m3 = list m"
    "timout_id m3 = timout_id m" "length (showbuf m3) = length (showbuf m)"
    "slen m3 = slen m \<or> slen m3 = 0"
    and w2: "sent w2 = sent w @ [?q ! 0]" "timeouts w2 = timeouts w" "next_id w2 = next_id w"
    by blast
  have un: "drain X m w = drain X m3 w2"
    using pos r0 sh hk res by (subst drain.simps) (simp add: Let_def)
  have ok3: "queue_ok m3" using pos ql m3 lq by (simp add: queue_ok_def)
  have n3: "n = nat (resolved m3)" using n m3 by simp
  from Suc.hyps(1) [OF n3 ok3, of w2] Suc.prems(2) m3 obtain m' w' where
    d: "drain X m3 w2 = Inr (m', w')" and f: "resolved m' = 0" "qlen m' = qlen m3 - resolved m3"
    "length (queue m') = length (queue m3)" "list m' = list m3" "timout_id m' = timout_id m3"
    "length (showbuf m') = length (showbuf m3)" "slen m' = slen m3 \<or> slen m' = 0"
    and qk: "\<forall>k. int k < qlen m' \<longrightarrow> queue m' ! k = queue m3 ! (k + nat (resolved m3))"
    and sw: "sent w' = sent w2 @ take (nat (resolved m3)) (queue m3)"
    "timeouts w' = timeouts w2" "next_id w' = next_id w2"
    by auto
  have q1: "\<forall>k. int k < qlen m' \<longrightarrow> queue m' ! k = queue m ! (k + nat (resolved m))"
  proof (intro allI impI)
    fix k assume k: "int k < qlen m'"
    then have kk: "int (k + nat (resolved m - 1)) < qlen m - 1" using f m3 pos by simp
    from kk ql have "k + nat (resolved m - 1) < length ?q" by linarith
    with nq kk have a: "q' ! (k + nat (resolved m - 1)) = ?q ! (k + nat (resolved m - 1) + 1)"
      by simp
    have e: "k + nat (resolved m - 1) + 1 = k + nat (resolved m)" using pos by simp
    from qk k have "queue m' ! k = queue m3 ! (k + nat (resolved m3))" by blast
    also have "\<dots> = q' ! (k + nat (resolved m - 1))" by (simp only: m3)
    also note a
    also have "?q ! (k + nat (resolved m - 1) + 1) = ?q ! (k + nat (resolved m))"
      by (simp only: e)
    finally show "queue m' ! k = queue m ! (k + nat (resolved m))" .
  qed
  have tk: "take n q' = take n (tl ?q)"
  proof (rule take_shift [OF lq])
    show "n < length ?q" using n ql pos by simp
    show "\<forall>k<n. q' ! k = ?q ! (k + 1)"
    proof (intro allI impI)
      fix k assume kn: "k < n"
      then have "int k < qlen m - 1" using n ql pos by simp
      moreover from this ql have "k < length ?q" by simp
      ultimately show "q' ! k = ?q ! (k + 1)" using nq by simp
    qed
  qed
  have sn: "nat (resolved m) = Suc n" using n pos by simp
  have "take (Suc n) ?q = ?q ! 0 # take n (tl ?q)"
    using ne by (cases ?q) simp_all
  with sw w2 m3 tk n3 sn have s': "sent w' = sent w @ take (nat (resolved m)) ?q"
    by simp
  from un d f m3 lq q1 s' sw w2 pos show ?case
    by auto
qed

lemma show_key_ok:
  assumes "length (showbuf m) = 12" and "0 \<le> slen m" and "slen m < 10"
  shows "\<exists>m1. show_key X key m = Inr m1 \<and> length (showbuf m1) = 12 \<and>
           slen m < slen m1 \<and> slen m1 \<le> slen m + 2"
  using assms by (simp add: show_key_def wr_def)

lemma showcmd_loop_ok:
  "length (showbuf m) = 12 \<Longrightarrow> 0 \<le> slen m \<Longrightarrow> slen m \<le> 11 \<Longrightarrow> 0 \<le> k \<Longrightarrow> 0 \<le> keylen \<Longrightarrow>
   k + keylen \<le> int (length keys) \<Longrightarrow>
     \<exists>m'. showcmd_loop X keys k keylen 10 m = Inr m' \<and> length (showbuf m') = 12 \<and>
       0 \<le> slen m' \<and> slen m' \<le> 11"
proof (induction X keys k keylen "10::int" m rule: showcmd_loop.induct)
  case (1 X keys k keylen m)
  show ?case
  proof (cases "keylen \<noteq> 0 \<and> slen m < 10")
    case False
    with 1(2-4) show ?thesis by (subst showcmd_loop.simps) auto
  next
    case True
    with 1(5-7) have r: "rd keys k = Inr (keys ! nat k)" by (simp add: rd_def)
    from show_key_ok [of m X "keys ! nat k"] 1(2,3) True obtain m1 where
      s: "show_key X (keys ! nat k) m = Inr m1" and m1: "length (showbuf m1) = 12"
      "slen m < slen m1" "slen m1 \<le> slen m + 2" by auto
    from m1 1(3) True have "0 \<le> slen m1" "slen m1 \<le> 11" by simp_all
    moreover from 1(5-7) True have "0 \<le> k + 1" "0 \<le> keylen - 1"
      "k + 1 + (keylen - 1) \<le> int (length keys)" by simp_all
    ultimately obtain m' where "showcmd_loop X keys (k + 1) (keylen - 1) 10 m1 = Inr m'"
      "length (showbuf m') = 12" "0 \<le> slen m'" "slen m' \<le> 11"
      using "1.hyps" [OF True r s m1(1)] by blast
    with True r s show ?thesis by (subst showcmd_loop.simps) simp
  qed
qed

lemma showcmd_ok:
  assumes "length (showbuf m) = 12" and "app \<Longrightarrow> 0 \<le> slen m \<and> slen m \<le> 11"
    and "0 \<le> keylen" and "keylen \<le> int (length keys)"
  shows "\<exists>m' w'. showcmd X keys keylen app m w = Inr (m', w') \<and> buf_ok m'"
proof (cases "keylen = 0")
  case True
  with assms(1) show ?thesis by (auto simp: showcmd_def wr_def buf_ok_def)
next
  case False
  let ?m1 = "if \<not> app then m\<lparr>slen := 0\<rparr> else m"
  from assms(1,2) have "length (showbuf ?m1) = 12" "0 \<le> slen ?m1" "slen ?m1 \<le> 11" by auto
  from showcmd_loop_ok [OF this, of 0 keylen keys X] assms(3,4) obtain m2 where
    l: "showcmd_loop X keys 0 keylen 10 ?m1 = Inr m2" and m2: "length (showbuf m2) = 12"
    "0 \<le> slen m2" "slen m2 \<le> 11" by auto
  from m2 have "wr (showbuf m2) (slen m2) NUL = Inr ((showbuf m2)[nat (slen m2) := NUL])"
    by (simp add: wr_def)
  with False l m2 assms(1) show ?thesis
    by (simp add: showcmd_def buf_ok_def Let_def)
qed

lemma strncmp_ok:
  "0 \<le> i \<Longrightarrow> 0 \<le> n \<Longrightarrow> i + n \<le> int (length a) \<Longrightarrow> \<exists>b. strncmp s a i n = Inr b"
proof (induction s arbitrary: i n)
  case Nil
  then show ?case by (subst strncmp.simps) (auto simp: rd_def)
next
  case (Cons c s)
  show ?case
  proof (cases "n = 0")
    case True
    then show ?thesis by (subst strncmp.simps) auto
  next
    case False
    with Cons.prems have r: "rd a i = Inr (a ! nat i)" by (simp add: rd_def)
    from Cons.prems False have "0 \<le> i + 1" "0 \<le> n - 1" "i + 1 + (n - 1) \<le> int (length a)"
      by simp_all
    from Cons.IH [OF this] obtain b where "strncmp s a (i + 1) (n - 1) = Inr b" by blast
    with False r show ?thesis by (subst strncmp.simps) auto
  qed
qed

lemma strncmp_prefix:
  "NUL \<notin> set s \<Longrightarrow> 0 \<le> i \<Longrightarrow> 0 \<le> n \<Longrightarrow> n \<le> int (length s) \<Longrightarrow> i + n \<le> int (length a) \<Longrightarrow>
     strncmp s a i n = Inr (take (nat n) s = take (nat n) (drop (nat i) a))"
proof (induction s arbitrary: i n)
  case Nil
  then show ?case by (subst strncmp.simps) simp
next
  case (Cons c s)
  show ?case
  proof (cases "n = 0")
    case True
    then show ?thesis by (subst strncmp.simps) simp
  next
    case False
    with Cons.prems have r: "rd a i = Inr (a ! nat i)" and il: "nat i < length a"
      by (simp_all add: rd_def)
    from False Cons.prems obtain k where k: "nat n = Suc k" "nat (n - 1) = k"
      by (cases "nat n") auto
    from il have d: "drop (nat i) a = a ! nat i # drop (nat (i + 1)) a"
      using Cons.prems(2) by (simp add: Cons_nth_drop_Suc nat_add_distrib)
    from Cons.prems False have "NUL \<notin> set s" "0 \<le> i + 1" "0 \<le> n - 1" "n - 1 \<le> int (length s)"
      "i + 1 + (n - 1) \<le> int (length a)" by simp_all
    from Cons.IH [OF this]
    have ih: "strncmp s a (i + 1) (n - 1) = Inr (take k s = take k (drop (nat (i + 1)) a))"
      by (simp add: k)
    from Cons.prems(1) have "c \<noteq> NUL" by auto
    with False r ih show ?thesis
      by (subst strncmp.simps) (auto simp: k d)
  qed
qed

lemma showcmd_same:
  "showcmd X keys keylen app m w = Inr (m', w') \<Longrightarrow> same_engine m m' \<and> same_world w w'"
  by (drule showcmd_frame) (simp add: same_engine_def same_world_def)

lemma ambiguous_count_Nil: "ambiguous_count t q n md [] = 0"
  by (simp add: ambiguous_count_def)

lemma ambiguous_count_Cons:
  "ambiguous_count t q n md (r # l) =
     (if \<not> t \<and> ambiguous_match q n md r then 1 else 0) + ambiguous_count t q n md l"
  by (simp add: ambiguous_count_def)

lemma lookup_loop_ok:
  assumes "\<forall>r\<in>set l. wf_map r" and "0 \<le> qlen m" and "qlen m \<le> int (length (queue m))"
    and "buf_ok m"
  shows "\<exists>m' w'. lookup_loop X t l (amb, mt, m, w) =
           Inr (amb + ambiguous_count t (queue m) (qlen m) (mode_id (vb w)) l,
                best mt (filter (full_match (queue m) (qlen m) (mode_id (vb w))) l), m', w') \<and>
           same_engine m m' \<and> buf_ok m' \<and> same_world w w'"
  using assms
proof (induction l arbitrary: amb mt m w)
  case Nil
  then show ?case by (simp add: same_engine_def same_world_def ambiguous_count_Nil)
next
  case (Cons r l)
  let ?md = "mode_id (vb w)"
  let ?q = "queue m" and ?n = "qlen m"
  from Cons.prems have wfr: "wf_map r" and wfl: "\<forall>r\<in>set l. wf_map r" by simp_all
  show ?case
  proof (cases "mode r = ?md")
    case False
    then have "\<not> full_match ?q ?n ?md r" "\<not> ambiguous_match ?q ?n ?md r"
      by (simp_all add: full_match_def ambiguous_match_def)
    with Cons.IH [OF wfl Cons.prems(2-4), of amb mt w] False show ?thesis
      by (simp add: ambiguous_count_Cons)
  next
    case True
    let ?A = "if \<not> t \<and> inlen r > ?n then
                 (case strncmp (inkeys r) ?q 0 ?n of
                    Inl e \<Rightarrow> Inl e
                  | Inr eq \<Rightarrow>
                      if eq then
                        (case showcmd X ?q ?n False m w of
                           Inl e \<Rightarrow> Inl e
                         | Inr (m', w') \<Rightarrow> Inr (amb + 1, m', w'))
                      else Inr (amb, m, w))
               else Inr (amb, m, w)"
    have A: "\<exists>m1 w1. ?A = Inr (amb + (if \<not> t \<and> ambiguous_match ?q ?n ?md r then 1 else 0), m1, w1) \<and>
               same_engine m m1 \<and> buf_ok m1 \<and> same_world w w1"
    proof (cases "\<not> t \<and> inlen r > ?n")
      case False
      with Cons.prems(4) show ?thesis
        by (auto simp: ambiguous_match_def same_engine_def same_world_def)
    next
      case c: True
      from wfr c Cons.prems(2,3)
      have s: "strncmp (inkeys r) ?q 0 ?n = Inr (take (nat ?n) (inkeys r) = take (nat ?n) ?q)"
        using strncmp_prefix [of "inkeys r" 0 ?n ?q] by (simp add: wf_map_def)
      show ?thesis
      proof (cases "take (nat ?n) (inkeys r) = take (nat ?n) ?q")
        case False
        with c s True Cons.prems(4) show ?thesis
          by (simp add: ambiguous_match_def same_engine_def same_world_def)
      next
        case e: True
        from showcmd_ok [of m False ?n ?q X w] Cons.prems(2-4) obtain m1 w1 where
          sc: "showcmd X ?q ?n False m w = Inr (m1, w1)" and b1: "buf_ok m1"
          by (auto simp: buf_ok_def)
        from showcmd_same [OF sc] b1 sc c s e True show ?thesis
          by (simp add: ambiguous_match_def)
      qed
    qed
    then obtain m1 w1 where
      a: "?A = Inr (amb + (if \<not> t \<and> ambiguous_match ?q ?n ?md r then 1 else 0), m1, w1)"
      and sm: "same_engine m m1" and b1: "buf_ok m1" and sw: "same_world w w1" by blast
    from sm have q1: "queue m1 = ?q" "qlen m1 = ?n" by (simp_all add: same_engine_def)
    let ?B = "if inlen r \<le> qlen m1 then
                (case strncmp (inkeys r) (queue m1) 0 (inlen r) of
                   Inl e \<Rightarrow> Inl e
                 | Inr eq \<Rightarrow>
                     Inr (if eq \<and> (case mt of None \<Rightarrow> True | Some a \<Rightarrow> inlen a < inlen r)
                          then Some r else mt))
              else Inr mt"
    let ?mt = "if full_match ?q ?n ?md r \<and> (case mt of None \<Rightarrow> True | Some a \<Rightarrow> inlen a < inlen r)
               then Some r else mt"
    have B: "?B = Inr ?mt"
    proof (cases "inlen r \<le> ?n")
      case False
      then show ?thesis by (simp add: q1 full_match_def)
    next
      case c: True
      from wfr c Cons.prems(2,3)
      have "strncmp (inkeys r) ?q 0 (inlen r) = Inr (take (nat (inlen r)) (inkeys r) = take (nat (inlen r)) ?q)"
        using strncmp_prefix [of "inkeys r" 0 "inlen r" ?q] by (simp add: wf_map_def)
      moreover from wfr have "take (nat (inlen r)) (inkeys r) = inkeys r" by (simp add: wf_map_def)
      ultimately show ?thesis using c True by (simp add: q1 full_match_def)
    qed
    from sm Cons.prems(2,3) have p1: "0 \<le> qlen m1" "qlen m1 \<le> int (length (queue m1))"
      by (simp_all add: q1)
    from Cons.IH [OF wfl p1 b1, of "amb + (if \<not> t \<and> ambiguous_match ?q ?n ?md r then 1 else 0)" ?mt w1]
    obtain m' w' where
      l: "lookup_loop X t l (amb + (if \<not> t \<and> ambiguous_match ?q ?n ?md r then 1 else 0), ?mt, m1, w1) =
            Inr (amb + (if \<not> t \<and> ambiguous_match ?q ?n ?md r then 1 else 0) +
                   ambiguous_count t (queue m1) (qlen m1) (mode_id (vb w1)) l,
                 best ?mt (filter (full_match (queue m1) (qlen m1) (mode_id (vb w1))) l), m', w')"
      and f: "same_engine m1 m'" "buf_ok m'" "same_world w1 w'" by blast
    from sw have v1: "mode_id (vb w1) = ?md" by (simp add: same_world_def)
    have "lookup_loop X t (r # l) (amb, mt, m, w) =
            lookup_loop X t l (amb + (if \<not> t \<and> ambiguous_match ?q ?n ?md r then 1 else 0), ?mt, m1, w1)"
      using True a B by simp
    with l f sm sw show ?thesis
      by (auto simp: q1 v1 same_engine_def same_world_def ambiguous_count_Cons)
  qed
qed

lemma best_char:
  "best acc cs = res \<Longrightarrow>
     (res = acc \<and> (\<forall>x\<in>set cs. case acc of None \<Rightarrow> False | Some a \<Rightarrow> inlen x \<le> inlen a)) \<or>
     (\<exists>pre r post. cs = pre @ r # post \<and> res = Some r \<and>
        (case acc of None \<Rightarrow> True | Some a \<Rightarrow> inlen a < inlen r) \<and>
        (\<forall>x\<in>set pre. inlen x < inlen r) \<and> (\<forall>x\<in>set post. inlen x \<le> inlen r))"
proof (induction cs arbitrary: acc)
  case Nil
  then show ?case by simp
next
  case (Cons c cs)
  let ?better = "case acc of None \<Rightarrow> True | Some a \<Rightarrow> inlen a < inlen c"
  let ?acc = "if ?better then Some c else acc"
  from Cons.prems have b: "best ?acc cs = res" by simp
  note ih = Cons.IH [OF b]
  show ?case
  proof (cases ?better)
    case True
    from ih True consider
      (keep) "res = Some c" "\<forall>x\<in>set cs. inlen x \<le> inlen c"
      | (later) pre r post where "cs = pre @ r # post" "res = Some r" "inlen c < inlen r"
          "\<forall>x\<in>set pre. inlen x < inlen r" "\<forall>x\<in>set post. inlen x \<le> inlen r"
      by auto
    then show ?thesis
    proof cases
      case keep
      with True have "c # cs = [] @ c # cs \<and> res = Some c \<and> ?better \<and>
          (\<forall>x\<in>set []. inlen x < inlen c) \<and> (\<forall>x\<in>set cs. inlen x \<le> inlen c)" by simp
      then show ?thesis by blast
    next
      case later
      with True have "c # cs = (c # pre) @ r # post \<and> res = Some r \<and>
          (case acc of None \<Rightarrow> True | Some a \<Rightarrow> inlen a < inlen r) \<and>
          (\<forall>x\<in>set (c # pre). inlen x < inlen r) \<and> (\<forall>x\<in>set post. inlen x \<le> inlen r)"
        by (auto split: option.splits)
      then show ?thesis by blast
    qed
  next
    case False
    then obtain a where a: "acc = Some a" "inlen c \<le> inlen a" by (auto split: option.splits)
    from ih False a consider
      (keep) "res = acc" "\<forall>x\<in>set cs. inlen x \<le> inlen a"
      | (later) pre r post where "cs = pre @ r # post" "res = Some r" "inlen a < inlen r"
          "\<forall>x\<in>set pre. inlen x < inlen r" "\<forall>x\<in>set post. inlen x \<le> inlen r"
      by auto
    then show ?thesis
    proof cases
      case keep
      with a show ?thesis by simp
    next
      case later
      with a have "c # cs = (c # pre) @ r # post \<and> res = Some r \<and>
          (case acc of None \<Rightarrow> True | Some a \<Rightarrow> inlen a < inlen r) \<and>
          (\<forall>x\<in>set (c # pre). inlen x < inlen r) \<and> (\<forall>x\<in>set post. inlen x \<le> inlen r)"
        by auto
      then show ?thesis by blast
    qed
  qed
qed

lemma best_None_char:
  "(best None cs = None \<longleftrightarrow> cs = []) \<and>
   (\<forall>r. best None cs = Some r \<longrightarrow>
      (\<exists>pre post. cs = pre @ r # post \<and> (\<forall>x\<in>set pre. inlen x < inlen r) \<and>
         (\<forall>x\<in>set post. inlen x \<le> inlen r)))"
proof -
  from best_char [of None cs "best None cs"] consider
    (none) "best None cs = None" "\<forall>x\<in>set cs. False"
    | (some) pre r post where "cs = pre @ r # post" "best None cs = Some r"
        "\<forall>x\<in>set pre. inlen x < inlen r" "\<forall>x\<in>set post. inlen x \<le> inlen r"
    by auto
  then show ?thesis
  proof cases
    case none
    then have "cs = []" by (cases cs) auto
    with none show ?thesis by simp
  next
    case some
    then show ?thesis by auto
  qed
qed

lemma resolve_loop_last_round:
  assumes "resolve_loop X t mt st m w = Some res" and "I mt st m w"
    and step: "\<And>mt st m w mt' st' m' w'. I mt st m w \<Longrightarrow>
      loop_round X t mt st m w = Inr (Continue mt' st' m' w') \<Longrightarrow> I mt' st' m' w'"
  shows "\<exists>mt0 st0 m0 w0. I mt0 st0 m0 w0 \<and>
           loop_round X t mt0 st0 m0 w0 =
             (case res of Inl e \<Rightarrow> Inl e | Inr (r, st', m', w') \<Rightarrow> Inr (Return r st' m' w'))"
proof -
  let ?P = "\<lambda>X' t' mt st m w res. X' = X \<and> t' = t \<and> I mt st m w \<longrightarrow>
          (\<exists>mt0 st0 m0 w0. I mt0 st0 m0 w0 \<and>
             loop_round X t mt0 st0 m0 w0 =
               (case res of Inl e \<Rightarrow> Inl e | Inr (r, st', m', w') \<Rightarrow> Inr (Return r st' m' w')))"
  have "?P X t mt st m w res"
  proof (rule resolve_loop.raw_induct [where P = ?P, OF _ assms(1)], goal_cases)
    case (1 f X' t' mt st m w res)
    show ?case
    proof (intro impI, elim conjE)
      assume eq: "X' = X" "t' = t" and i: "I mt st m w"
      show "\<exists>mt0 st0 m0 w0. I mt0 st0 m0 w0 \<and>
             loop_round X t mt0 st0 m0 w0 =
               (case res of Inl e \<Rightarrow> Inl e | Inr (r, st', m', w') \<Rightarrow> Inr (Return r st' m' w'))"
      proof (cases "loop_round X t mt st m w")
        case (Inl e)
        with 1(2) eq have "res = Inl e" by simp
        with Inl i show ?thesis by auto
      next
        case (Inr a)
        show ?thesis
        proof (cases a)
          case (Return r st' m' w')
          with Inr 1(2) eq have "res = Inr (r, st', m', w')" by simp
          with Return Inr i show ?thesis by auto
        next
          case (Continue mt' st' m' w')
          with Inr have lr: "loop_round X t mt st m w = Inr (Continue mt' st' m' w')" by simp
          with 1(2) eq have "f X t mt' st' m' w' = Some res" by simp
          from 1(1) [OF this] step [OF i lr] show ?thesis by simp
        qed
      qed
    qed
  qed
  with assms(2) show ?thesis by blast
qed


text \<open>What a round that does not stop at a fault has done.\<close>

lemma loop_round_Inr:
  assumes "loop_round X t mt st m w = Inr res"
  shows "\<exists>m1 w1. drain X m w = Inr (m1, w1) \<and>
     (if qlen m1 = 0
      then res = Return (if mt \<noteq> None then MAP_DONE else MAP_NOMATCH) st (m1\<lparr>resolved := 0\<rparr>) w1
      else (\<exists>a mt2 m2 w2. lookup X t m1 w1 = Inr (a, mt2, m2, w2) \<and>
             (if a \<noteq> 0 then res = Return MAP_AMBIGUOUS st m2 w2
              else (case mt2 of
                      Some r \<Rightarrow> (\<exists>m3. substitute r m2 = Inr m3 \<and>
                                  res = Continue mt2 (st @ [Mapped r]) m3 w2)
                    | None \<Rightarrow> (\<exists>m3 w3.
                          showcmd X (queue m2) 1 True (m2\<lparr>resolved := 1\<rparr>) w2 = Inr (m3, w3) \<and>
                          res = Continue None (st @ [Literal (first_key m2)]) m3 w3)))))"
proof (cases "drain X m w")
  case (Inl e)
  with assms show ?thesis by (simp add: loop_round_def)
next
  case (Inr a)
  obtain m1 w1 where a: "a = (m1, w1)" by (cases a) auto
  with Inr have d: "drain X m w = Inr (m1, w1)" by simp
  show ?thesis
  proof (cases "qlen m1 = 0")
    case True
    with assms d show ?thesis by (auto simp: loop_round_def)
  next
    case q: False
    show ?thesis
    proof (cases "lookup X t m1 w1")
      case (Inl e)
      with assms d q show ?thesis by (simp add: loop_round_def)
    next
      case (Inr b)
      obtain a mt2 m2 w2 where b: "b = (a, mt2, m2, w2)" by (cases b) auto
      with Inr have lk: "lookup X t m1 w1 = Inr (a, mt2, m2, w2)" by simp
      show ?thesis
      proof (cases "a \<noteq> 0")
        case True
        with assms d q lk show ?thesis by (auto simp: loop_round_def)
      next
        case z: False
        show ?thesis
        proof (cases mt2)
          case (Some r)
          with assms d q lk z show ?thesis
            by (cases "substitute r m2") (auto simp: loop_round_def)
        next
          case None
          show ?thesis
          proof (cases "showcmd X (queue m2) 1 True (m2\<lparr>resolved := 1\<rparr>) w2")
            case (Inl e)
            with assms d q lk z None show ?thesis by (simp add: loop_round_def)
          next
            case (Inr p)
            obtain m3 w3 where "p = (m3, w3)" by (cases p) auto
            with Inr assms d q lk z None show ?thesis by (auto simp: loop_round_def)
          qed
        qed
      qed
    qed
  qed
qed

lemma drain_partial:
  "drain X m w = Inr (m', w') \<Longrightarrow>
     list m' = list m \<and> timout_id m' = timout_id m \<and> resolved m' \<le> 0 \<and>
     (0 \<le> resolved m \<longrightarrow> resolved m' = 0)"
proof (induction "nat (resolved m)" arbitrary: m w)
  case 0
  then have "\<not> 0 < resolved m" by simp
  with 0(2) have "m' = m" by (subst (asm) drain.simps) simp
  with 0(1) show ?case by simp
next
  case (Suc n)
  then have pos: "0 < resolved m" by simp
  from Suc.prems pos obtain m3 w2 where d: "drain X m3 w2 = Inr (m', w')"
    and m3: "resolved m3 = resolved m - 1" "list m3 = list m" "timout_id m3 = timout_id m"
    by (subst (asm) drain.simps)
       (auto simp: Let_def split: sum.splits prod.splits if_splits dest!: showcmd_frame)
  from Suc.hyps(2) m3 have "n = nat (resolved m3)" by simp
  from Suc.hyps(1) [OF this d] m3 pos show ?case by simp
qed

lemma lookup_loop_partial:
  "lookup_loop X t l (amb, mt, m, w) = Inr (amb', mt', m', w') \<Longrightarrow>
     same_engine m m' \<and> same_world w w' \<and> (mt' = mt \<or> (\<exists>r\<in>set l. mt' = Some r))"
proof (induction l arbitrary: amb mt m w)
  case Nil
  then show ?case by (simp add: same_engine_def same_world_def)
next
  case (Cons r l)
  show ?case
  proof (cases "mode r \<noteq> mode_id (vb w)")
    case True
    with Cons.prems have "lookup_loop X t l (amb, mt, m, w) = Inr (amb', mt', m', w')" by simp
    from Cons.IH [OF this] show ?thesis by auto
  next
    case False
    with Cons.prems obtain a1 m1 w1 mt1 where
      l: "lookup_loop X t l (a1, mt1, m1, w1) = Inr (amb', mt', m', w')"
      and s: "same_engine m m1" "same_world w w1" and mt1: "mt1 = mt \<or> mt1 = Some r"
      by (simp split: sum.splits prod.splits if_splits)
         (auto dest!: showcmd_same simp: same_engine_def same_world_def)
    from Cons.IH [OF l] s mt1 show ?thesis
      by (auto simp: same_engine_def same_world_def)
  qed
qed

lemma substitute_partial:
  "substitute r m = Inr m' \<Longrightarrow>
     list m' = list m \<and> timout_id m' = timout_id m \<and> showbuf m' = showbuf m \<and> slen m' = slen m \<and>
     qlen m' = qlen m + mappedlen r - inlen r \<and>
     resolved m' = (if inlen r \<le> mappedlen r then inlen r else mappedlen r)"
  by (auto simp: substitute_def split: sum.splits)

lemma append_keys_partial:
  "append_keys keys m = Inr m' \<Longrightarrow>
     list m' = list m \<and> resolved m' = resolved m \<and> timout_id m' = timout_id m \<and>
     showbuf m' = showbuf m \<and> slen m' = slen m"
  by (induction keys arbitrary: m) (auto split: if_splits sum.splits)

lemma lookup_partial:
  "lookup X t m w = Inr (a, mt, m', w') \<Longrightarrow>
     same_engine m m' \<and> same_world w w' \<and> (mt = None \<or> (\<exists>r\<in>set (list m). mt = Some r))"
  by (auto simp: lookup_def same_engine_def same_world_def split: if_splits
           dest!: lookup_loop_partial)

lemma loop_round_next_resolved:
  assumes "loop_round X t mt st m w = Inr (Continue mt' st' m' w')" and "lens_nonneg m"
  shows "0 \<le> resolved m' \<and> lens_nonneg m'"
proof -
  from loop_round_Inr [OF assms(1)] obtain m1 w1 a mt2 m2 w2 where
    d: "drain X m w = Inr (m1, w1)" and lk: "lookup X t m1 w1 = Inr (a, mt2, m2, w2)"
    and r: "case mt2 of
              Some r \<Rightarrow> (\<exists>m3. substitute r m2 = Inr m3 \<and>
                          Continue mt' st' m' w' = Continue mt2 (st @ [Mapped r]) m3 w2)
            | None \<Rightarrow> (\<exists>m3 w3.
                  showcmd X (queue m2) 1 True (m2\<lparr>resolved := 1\<rparr>) w2 = Inr (m3, w3) \<and>
                  Continue mt' st' m' w' = Continue None (st @ [Literal (first_key m2)]) m3 w3)"
    by (auto split: if_splits)
  from drain_partial [OF d] lookup_partial [OF lk]
  have m2: "list m2 = list m" and mt2: "mt2 = None \<or> (\<exists>r\<in>set (list m). mt2 = Some r)"
    by (auto simp: same_engine_def)
  show ?thesis
  proof (cases mt2)
    case None
    with r have "showcmd X (queue m2) 1 True (m2\<lparr>resolved := 1\<rparr>) w2 = Inr (m', w')" by auto
    from showcmd_frame [OF this] m2 assms(2) show ?thesis by (simp add: lens_nonneg_def)
  next
    case (Some r')
    with r have "substitute r' m2 = Inr m'" by auto
    from substitute_partial [OF this] Some mt2 m2 assms(2) show ?thesis
      by (auto simp: lens_nonneg_def)
  qed
qed

lemma loop_round_ambiguous:
  assumes "loop_round X t mt st m w = Inr (Return MAP_AMBIGUOUS st' m' w')"
    and "0 \<le> resolved m"
  shows "resolved m' = 0"
proof -
  from loop_round_Inr [OF assms(1)] obtain m1 w1 a mt2 where
    d: "drain X m w = Inr (m1, w1)" and lk: "lookup X t m1 w1 = Inr (a, mt2, m', w')"
    by (auto split: if_splits option.splits)
  from drain_partial [OF d] assms(2) have "resolved m1 = 0" by simp
  with lookup_partial [OF lk] show ?thesis by (simp add: same_engine_def)
qed

lemma restart_timer_frame:
  "restart_timer m w = (m', w') \<Longrightarrow>
     m' = m\<lparr>timout_id := timout_id m'\<rparr> \<and> vb w' = vb w \<and> sent w' = sent w \<and>
     cmd_text w' = cmd_text w"
  by (auto simp: restart_timer_def g_timeout_add_def g_source_remove_def Let_def)

lemma map_handle_keys_Inr:
  assumes "map_handle_keys X keys m w = Some (Inr res)"
  obtains m1 w1 m2 where
    "(if keys \<noteq> [] then restart_timer m w else (m, w)) = (m1, w1)"
    "append_keys keys m1 = Inr m2"
    "resolve_loop X (keys = []) None [] m2 w1 = Some (Inr res)"
proof -
  obtain m1 w1 where s: "(if keys \<noteq> [] then restart_timer m w else (m, w)) = (m1, w1)"
    by force
  show thesis
  proof (cases "append_keys keys m1")
    case (Inl e)
    with assms s show ?thesis by (auto simp: map_handle_keys_def)
  next
    case (Inr m2)
    with assms s have "resolve_loop X (keys = []) None [] m2 w1 = Some (Inr res)"
      by (auto simp: map_handle_keys_def)
    with s Inr show ?thesis by (rule that)
  qed
qed

lemma make_space_ok:
  "0 \<le> il \<Longrightarrow> il \<le> j \<Longrightarrow> j \<le> i \<Longrightarrow> i \<le> int (length q) \<Longrightarrow>
     \<exists>q'. make_space q i j il = Inr q' \<and> length q' = length q \<and>
       (\<forall>x<length q. q' ! x = (if il + (i - j) \<le> int x \<and> int x < i
                                then q ! nat (int x - (i - j)) else q ! x))"
proof (induction q i j il rule: make_space.induct)
  case (1 q i j il)
  show ?case
  proof (cases "j > il")
    case False
    with 1(2-) have "j = il" by simp
    then show ?thesis by (subst make_space.simps) auto
  next
    case True
    let ?c = "q ! nat (j - 1)"
    let ?q1 = "q[nat (i - 1) := ?c]"
    from True 1(2-) have r: "rd q (j - 1) = Inr ?c" by (simp add: rd_def)
    from True 1(2-) have w: "wr q (i - 1) ?c = Inr ?q1" by (simp add: wr_def)
    from True 1(2-) have "0 \<le> il" "il \<le> j - 1" "j - 1 \<le> i - 1" "i - 1 \<le> int (length ?q1)"
      by simp_all
    from "1.IH" [OF True r w this] obtain q' where
      s: "make_space ?q1 (i - 1) (j - 1) il = Inr q'" and l: "length q' = length ?q1"
      and k: "\<forall>x<length ?q1. q' ! x = (if il + (i - 1 - (j - 1)) \<le> int x \<and> int x < i - 1
                                then ?q1 ! nat (int x - (i - 1 - (j - 1))) else ?q1 ! x)"
      by blast
    have "make_space q i j il = Inr q'"
      using True r w s by (subst make_space.simps) simp
    moreover have "length q' = length q" using l by simp
    moreover have "\<forall>x<length q. q' ! x = (if il + (i - j) \<le> int x \<and> int x < i
                                then q ! nat (int x - (i - j)) else q ! x)"
    proof (intro allI impI)
      fix x assume xl: "x < length q"
      have d: "i - 1 - (j - 1) = i - j" by simp
      from k xl have kx: "q' ! x = (if il + (i - j) \<le> int x \<and> int x < i - 1
                                then ?q1 ! nat (int x - (i - j)) else ?q1 ! x)"
        by (simp add: d)
      show "q' ! x = (if il + (i - j) \<le> int x \<and> int x < i then q ! nat (int x - (i - j)) else q ! x)"
      proof (cases "int x = i - 1")
        case e: True
        then have "nat (i - 1) = x" by simp
        moreover from e have "int x - (i - j) = j - 1" by simp
        ultimately show ?thesis using kx xl e True 1(2-) by simp
      next
        case ne: False
        then have n1: "nat (i - 1) \<noteq> x" using True 1(2-) by auto
        show ?thesis
        proof (cases "il + (i - j) \<le> int x \<and> int x < i - 1")
          case a: True
          then have "nat (int x - (i - j)) \<noteq> nat (i - 1)" using True 1(2-) by auto
          with kx a show ?thesis by simp
        next
          case False
          with kx n1 ne show ?thesis by auto
        qed
      qed
    qed
    ultimately show ?thesis by blast
  qed
qed

lemma delete_keys_ok:
  "0 \<le> i \<Longrightarrow> i \<le> j \<Longrightarrow> (i < n \<longrightarrow> n - i + j \<le> int (length q)) \<Longrightarrow>
     \<exists>q'. delete_keys q i j n = Inr q' \<and> length q' = length q \<and>
       (\<forall>x<length q. q' ! x = (if i \<le> int x \<and> int x < n
                                then q ! nat (int x + (j - i)) else q ! x))"
proof (induction q i j n rule: delete_keys.induct)
  case (1 q i j n)
  show ?case
  proof (cases "i < n")
    case False
    then show ?thesis by (subst delete_keys.simps) auto
  next
    case True
    let ?c = "q ! nat j"
    let ?q1 = "q[nat i := ?c]"
    from True 1(2-) have r: "rd q j = Inr ?c" by (simp add: rd_def)
    from True 1(2-) have w: "wr q i ?c = Inr ?q1" by (simp add: wr_def)
    from True 1(2-) have "0 \<le> i + 1" "i + 1 \<le> j + 1"
      "i + 1 < n \<longrightarrow> n - (i + 1) + (j + 1) \<le> int (length ?q1)"
      by simp_all
    from "1.IH" [OF True r w this] obtain q' where
      s: "delete_keys ?q1 (i + 1) (j + 1) n = Inr q'" and l: "length q' = length ?q1"
      and k: "\<forall>x<length ?q1. q' ! x = (if i + 1 \<le> int x \<and> int x < n
                                then ?q1 ! nat (int x + (j + 1 - (i + 1))) else ?q1 ! x)"
      by blast
    have "delete_keys q i j n = Inr q'"
      using True r w s by (subst delete_keys.simps) simp
    moreover have "length q' = length q" using l by simp
    moreover have "\<forall>x<length q. q' ! x = (if i \<le> int x \<and> int x < n
                                then q ! nat (int x + (j - i)) else q ! x)"
    proof (intro allI impI)
      fix x assume xl: "x < length q"
      have d: "j + 1 - (i + 1) = j - i" by simp
      from k xl have kx: "q' ! x = (if i + 1 \<le> int x \<and> int x < n
                                then ?q1 ! nat (int x + (j - i)) else ?q1 ! x)"
        by (simp add: d)
      show "q' ! x = (if i \<le> int x \<and> int x < n then q ! nat (int x + (j - i)) else q ! x)"
      proof (cases "int x = i")
        case e: True
        then have "nat i = x" by simp
        moreover from e have "int x + (j - i) = j" by simp
        ultimately show ?thesis using kx xl e True by simp
      next
        case ne: False
        then have n1: "nat i \<noteq> x" using 1(2-) by auto
        show ?thesis
        proof (cases "i + 1 \<le> int x \<and> int x < n")
          case a: True
          then have "nat (int x + (j - i)) \<noteq> nat i" using 1(2-) by auto
          with kx a show ?thesis by simp
        next
          case False
          with kx n1 ne show ?thesis by auto
        qed
      qed
    qed
    ultimately show ?thesis by blast
  qed
qed

lemma strncpy_ok:
  "0 \<le> k \<Longrightarrow> 0 \<le> n \<Longrightarrow> n \<le> int (length s) \<Longrightarrow> k + n \<le> int (length q) \<Longrightarrow>
     \<exists>q'. strncpy q s k n = Inr q' \<and> length q' = length q \<and>
       (\<forall>x<length q. q' ! x = (if k \<le> int x \<and> int x < k + n
                                then s ! nat (int x - k) else q ! x))"
proof (induction "nat n" arbitrary: q s k n)
  case 0
  then have "n = 0" by simp
  then show ?case by (subst strncpy.simps) auto
next
  case (Suc n')
  then have pos: "0 < n" by simp
  with Suc.prems obtain c s' where s: "s = c # s'" by (cases s) auto
  let ?q1 = "q[nat k := c]"
  from Suc.prems pos have w: "wr q k c = Inr ?q1" by (simp add: wr_def)
  from Suc.hyps(2) have n': "n' = nat (n - 1)" by simp
  from Suc.prems pos s have "0 \<le> k + 1" "0 \<le> n - 1" "n - 1 \<le> int (length s')"
    "k + 1 + (n - 1) \<le> int (length ?q1)" by simp_all
  from Suc.hyps(1) [OF n' this] obtain q' where
    c: "strncpy ?q1 s' (k + 1) (n - 1) = Inr q'" and l: "length q' = length ?q1"
    and kk: "\<forall>x<length ?q1. q' ! x = (if k + 1 \<le> int x \<and> int x < k + 1 + (n - 1)
                                then s' ! nat (int x - (k + 1)) else ?q1 ! x)"
    by blast
  have "strncpy q s k n = Inr q'"
    using pos w c s by (subst strncpy.simps) simp
  moreover have "length q' = length q" using l by simp
  moreover have "\<forall>x<length q. q' ! x = (if k \<le> int x \<and> int x < k + n
                                then s ! nat (int x - k) else q ! x)"
  proof (intro allI impI)
    fix x assume xl: "x < length q"
    from kk xl have kx: "q' ! x = (if k + 1 \<le> int x \<and> int x < k + n
                                then s' ! nat (int x - (k + 1)) else ?q1 ! x)"
      by simp
    show "q' ! x = (if k \<le> int x \<and> int x < k + n then s ! nat (int x - k) else q ! x)"
    proof (cases "int x = k")
      case e: True
      then have "nat k = x" by simp
      with kx xl e pos s show ?thesis by simp
    next
      case ne: False
      then have n1: "nat k \<noteq> x" using Suc.prems by auto
      show ?thesis
      proof (cases "k + 1 \<le> int x \<and> int x < k + n")
        case a: True
        then have "nat (int x - k) = Suc (nat (int x - (k + 1)))" by linarith
        with kx a s show ?thesis by simp
      next
        case False
        with kx n1 ne show ?thesis by auto
      qed
    qed
  qed
  ultimately show ?case by blast
qed

lemma subst_take:
  fixes a b n nb :: nat
  assumes "nb \<le> length q2" and "length mp = b" and "a \<le> n" and "n \<le> length q"
    and "nb + a = n + b"
    and "\<forall>x<nb. q2 ! x = (if x < b then mp ! x else q ! (x + a - b))"
  shows "take nb q2 = mp @ drop a (take n q)"
proof (rule nth_equalityI)
  show "length (take nb q2) = length (mp @ drop a (take n q))" using assms by simp
next
  fix i assume "i < length (take nb q2)"
  with assms(1) have i: "i < nb" by simp
  show "take nb q2 ! i = (mp @ drop a (take n q)) ! i"
  proof (cases "i < b")
    case True
    with i assms show ?thesis by (simp add: nth_append)
  next
    case False
    with i assms(3-5) have "a + (i - b) < n" "a + (i - b) = i + a - b" by simp_all
    with False i assms show ?thesis by (simp add: nth_append)
  qed
qed

lemma substitute_ok:
  assumes "0 \<le> inlen r" and "inlen r \<le> qlen m" and "qlen m \<le> int (length (queue m))"
    and "mappedlen r = int (length (mapped r))"
    and fit: "qlen m + \<bar>mappedlen r - inlen r\<bar> \<le> int (length (queue m))"
  shows "\<exists>m'. substitute r m = Inr m' \<and> length (queue m') = length (queue m) \<and>
           qlen m' = qlen m + mappedlen r - inlen r \<and>
           resolved m' = min (inlen r) (mappedlen r) \<and>
           take (nat (qlen m')) (queue m') =
             mapped r @ drop (nat (inlen r)) (take (nat (qlen m)) (queue m)) \<and>
           list m' = list m \<and> showbuf m' = showbuf m \<and> slen m' = slen m \<and>
           timout_id m' = timout_id m"
proof -
  let ?q = "queue m"
  define a where "a = nat (inlen r)"
  define b where "b = length (mapped r)"
  define n where "n = nat (qlen m)"
  have ia: "inlen r = int a" and ib: "mappedlen r = int b" and iq: "qlen m = int n"
    using assms by (simp_all add: a_def b_def n_def)
  from assms(2,3) have an: "a \<le> n" and nl: "n \<le> length ?q" by (simp_all add: ia iq)
  let ?shift = "if inlen r < mappedlen r then
              make_space ?q (qlen m + mappedlen r - inlen r) (qlen m) (inlen r)
            else if inlen r > mappedlen r then
              delete_keys ?q (mappedlen r) (inlen r) (qlen m)
            else Inr ?q"
  have "\<exists>q1. ?shift = Inr q1 \<and> length q1 = length ?q \<and>
          (\<forall>x. b \<le> x \<and> x < n + b - a \<longrightarrow> q1 ! x = ?q ! (x + a - b))"
  proof (cases "a < b")
    case True
    from fit True an have f: "n + b - a \<le> length ?q" by (simp add: ia ib iq)
    from f an True have "(0::int) \<le> int a" "int a \<le> int n" "int n \<le> int n + int b - int a"
      "int n + int b - int a \<le> int (length ?q)" by linarith+
    from make_space_ok [OF this]
    obtain q1 where m: "make_space ?q (int n + int b - int a) (int n) (int a) = Inr q1"
      and l: "length q1 = length ?q"
      and k: "\<forall>x<length ?q. q1 ! x = (if int a + (int n + int b - int a - int n) \<le> int x \<and>
                   int x < int n + int b - int a
                 then ?q ! nat (int x - (int n + int b - int a - int n)) else ?q ! x)"
      by auto
    have "\<forall>x. b \<le> x \<and> x < n + b - a \<longrightarrow> q1 ! x = ?q ! (x + a - b)"
    proof (intro allI impI)
      fix x assume x: "b \<le> x \<and> x < n + b - a"
      with f have xl: "x < length ?q" by simp
      from x True have c: "int a + (int n + int b - int a - int n) \<le> int x \<and>
                   int x < int n + int b - int a" by auto
      from x True have "nat (int x - (int n + int b - int a - int n)) = x + a - b" by auto
      with k xl c show "q1 ! x = ?q ! (x + a - b)" by simp
    qed
    with m l True show ?thesis by (simp add: ia ib iq)
  next
    case nlt: False
    show ?thesis
    proof (cases "b < a")
      case True
      from fit True an have f: "n + (a - b) \<le> length ?q" by (simp add: ia ib iq)
      from f an True have "(0::int) \<le> int b" "int b \<le> int a"
        "int b < int n \<longrightarrow> int n - int b + int a \<le> int (length ?q)" by linarith+
      from delete_keys_ok [OF this]
      obtain q1 where m: "delete_keys ?q (int b) (int a) (int n) = Inr q1"
        and l: "length q1 = length ?q"
        and k: "\<forall>x<length ?q. q1 ! x = (if int b \<le> int x \<and> int x < int n
                   then ?q ! nat (int x + (int a - int b)) else ?q ! x)"
        by auto
      have "\<forall>x. b \<le> x \<and> x < n + b - a \<longrightarrow> q1 ! x = ?q ! (x + a - b)"
      proof (intro allI impI)
        fix x assume x: "b \<le> x \<and> x < n + b - a"
        with nl True have xn: "x < n" by linarith
        with nl have xl: "x < length ?q" by simp
        from x True have "nat (int x + (int a - int b)) = x + a - b" by auto
        with k xl xn x show "q1 ! x = ?q ! (x + a - b)" by simp
      qed
      with m l True show ?thesis by (simp add: ia ib iq)
    next
      case False
      with nlt have "a = b" by simp
      then show ?thesis by (simp add: ia ib)
    qed
  qed
  then obtain q1 where sh: "?shift = Inr q1" and l1: "length q1 = length ?q"
    and k1: "\<forall>x. b \<le> x \<and> x < n + b - a \<longrightarrow> q1 ! x = ?q ! (x + a - b)" by blast
  from fit an have f: "n + b - a \<le> length ?q" by (simp add: ia ib iq)
  with an have bl: "b \<le> length q1" by (simp add: l1)
  from bl have "(0::int) \<le> 0" "(0::int) \<le> int b" "int b \<le> int (length (mapped r))"
    "0 + int b \<le> int (length q1)" by (simp_all add: b_def)
  from strncpy_ok [OF this]
  obtain q2 where c: "strncpy q1 (mapped r) 0 (int b) = Inr q2" and l2: "length q2 = length q1"
    and k2: "\<forall>x<length q1. q2 ! x = (if 0 \<le> int x \<and> int x < 0 + int b
                 then mapped r ! nat (int x - 0) else q1 ! x)"
    by blast
  let ?m' = "m\<lparr>queue := q2, qlen := qlen m + mappedlen r - inlen r,
                 resolved := (if inlen r \<le> mappedlen r then inlen r else mappedlen r)\<rparr>"
  have s: "substitute r m = Inr ?m'"
    unfolding substitute_def using sh c by (simp add: ib)
  have nb: "nat (qlen m + mappedlen r - inlen r) = n + b - a" using an by (simp add: ia ib iq)
  have "take (n + b - a) q2 = mapped r @ drop a (take n ?q)"
  proof (rule subst_take)
    show "n + b - a \<le> length q2" using f l1 l2 by simp
    show "length (mapped r) = b" by (simp add: b_def)
    show "a \<le> n" by (rule an)
    show "n \<le> length ?q" by (rule nl)
    show "n + b - a + a = n + b" using an by simp
    show "\<forall>x<n + b - a. q2 ! x = (if x < b then mapped r ! x else ?q ! (x + a - b))"
    proof (intro allI impI)
      fix x assume x: "x < n + b - a"
      with f l1 have "x < length q1" by simp
      with k2 have "q2 ! x = (if x < b then mapped r ! x else q1 ! x)" by simp
      with k1 x show "q2 ! x = (if x < b then mapped r ! x else ?q ! (x + a - b))" by simp
    qed
  qed
  with s l1 l2 nb show ?thesis by (simp add: a_def n_def min_def)
qed

lemma drain_noop: "resolved m \<le> 0 \<Longrightarrow> drain X m w = Inr (m, w)"
  by (subst drain.simps) simp

lemma best_filter_member:
  assumes "best None (filter P l) = Some r"
  shows "r \<in> set l \<and> P r"
proof -
  from best_None_char [of "filter P l"] assms obtain pre post where
    "filter P l = pre @ r # post" by blast
  then have "r \<in> set (filter P l)" by simp
  then show ?thesis by simp
qed

lemma lookup_ok:
  assumes "\<forall>r\<in>set (list m). wf_map r" and "0 \<le> qlen m" and "qlen m \<le> int (length (queue m))"
    and "buf_ok m"
  shows "\<exists>m' w'. lookup X t m w =
           Inr (if flag_nomap (vb w) then 0
                else ambiguous_count t (queue m) (qlen m) (mode_id (vb w)) (list m),
                if flag_nomap (vb w) then None
                else best None (filter (full_match (queue m) (qlen m) (mode_id (vb w))) (list m)),
                m', w') \<and>
           same_engine m m' \<and> buf_ok m' \<and> same_world w w'"
proof (cases "flag_nomap (vb w)")
  case True
  with assms(4) show ?thesis by (simp add: lookup_def same_engine_def same_world_def)
next
  case False
  with lookup_loop_ok [OF assms, of X t 0 None w] show ?thesis by (simp add: lookup_def)
qed

lemma append_keys_ok:
  "0 \<le> qlen m \<Longrightarrow> qlen m \<le> int (length (queue m)) \<Longrightarrow>
     \<exists>m'. append_keys keys m = Inr m' \<and>
       qlen m' = min (qlen m + int (length keys)) (int (length (queue m))) \<and>
       length (queue m') = length (queue m) \<and>
       take (nat (qlen m')) (queue m') =
         take (nat (qlen m')) (take (nat (qlen m)) (queue m) @ keys) \<and>
       list m' = list m \<and> resolved m' = resolved m \<and> showbuf m' = showbuf m \<and>
       slen m' = slen m \<and> timout_id m' = timout_id m"
proof (induction keys arbitrary: m)
  case Nil
  then show ?case by simp
next
  case (Cons key keys)
  show ?case
  proof (cases "qlen m < int (length (queue m))")
    case False
    with Cons.prems have "qlen m = int (length (queue m))" by simp
    with False show ?thesis by simp
  next
    case True
    define n where "n = nat (qlen m)"
    with Cons.prems True have n: "qlen m = int n" "n < length (queue m)" by simp_all
    let ?q1 = "(queue m)[n := key]"
    let ?m1 = "m\<lparr>queue := ?q1, qlen := qlen m + 1\<rparr>"
    from n have w: "wr (queue m) (qlen m) key = Inr ?q1" by (simp add: wr_def)
    from n have "0 \<le> qlen ?m1" "qlen ?m1 \<le> int (length (queue ?m1))" by simp_all
    from Cons.IH [OF this] obtain m' where
      a: "append_keys keys ?m1 = Inr m'"
      and q: "qlen m' = min (qlen ?m1 + int (length keys)) (int (length (queue ?m1)))"
      and l: "length (queue m') = length (queue ?m1)"
      and t: "take (nat (qlen m')) (queue m') =
                take (nat (qlen m')) (take (nat (qlen ?m1)) (queue ?m1) @ keys)"
      and f: "list m' = list ?m1" "resolved m' = resolved ?m1" "showbuf m' = showbuf ?m1"
        "slen m' = slen ?m1" "timout_id m' = timout_id ?m1"
      by blast
    have e: "take (nat (qlen ?m1)) (queue ?m1) = take n (queue m) @ [key]"
      using n by (simp add: nat_add_distrib take_Suc_conv_app_nth)
    have e2: "(take n (queue m) @ [key]) @ keys = take (nat (qlen m)) (queue m) @ key # keys"
      by (simp add: n)
    from t have "take (nat (qlen m')) (queue m') =
                take (nat (qlen m')) ((take n (queue m) @ [key]) @ keys)"
      by (simp only: e)
    then have "take (nat (qlen m')) (queue m') =
                take (nat (qlen m')) (take (nat (qlen m)) (queue m) @ key # keys)"
      by (simp only: e2)
    moreover have "append_keys (key # keys) m = Inr m'" using True w a Cons.prems by simp
    ultimately show ?thesis using q l f by simp
  qed
qed

lemma start_ok:
  assumes "(if keys \<noteq> [] then restart_timer m w else (m, w)) = (m1, w1)"
  shows "list m1 = list m \<and> queue m1 = queue m \<and> qlen m1 = qlen m \<and> resolved m1 = resolved m \<and>
         showbuf m1 = showbuf m \<and> slen m1 = slen m \<and> sent w1 = sent w \<and> vb w1 = vb w"
  using assms
  by (auto simp: restart_timer_def g_timeout_add_def g_source_remove_def Let_def
           split: if_splits)

lemma round_final:
  assumes "queue_ok m" and "resolved m = qlen m" and "buf_ok m"
  shows "\<exists>m' w'. loop_round X t mt st m w =
             Inr (Return (if mt \<noteq> None then MAP_DONE else MAP_NOMATCH) st m' w') \<and>
           qlen m' = 0 \<and> resolved m' = 0 \<and>
           sent w' = sent w @ take (nat (qlen m)) (queue m) \<and>
           list m' = list m \<and> length (queue m') = length (queue m) \<and>
           timout_id m' = timout_id m \<and> buf_ok m' \<and>
           timeouts w' = timeouts w \<and> next_id w' = next_id w"
proof -
  from assms(3) have "0 < length (showbuf m)" by (simp add: buf_ok_def)
  from drain_ok [OF assms(1) this, of X w] assms(2) obtain m1 w1 where
    d: "drain X m w = Inr (m1, w1)" and m1: "resolved m1 = 0" "qlen m1 = 0"
    "length (queue m1) = length (queue m)" "list m1 = list m" "timout_id m1 = timout_id m"
    "length (showbuf m1) = length (showbuf m)" "slen m1 = slen m \<or> slen m1 = 0"
    and w1: "sent w1 = sent w @ take (nat (qlen m)) (queue m)"
    "timeouts w1 = timeouts w" "next_id w1 = next_id w"
    by auto
  from m1 assms(3) have "buf_ok (m1\<lparr>resolved := 0\<rparr>)" by (auto simp: buf_ok_def)
  with d m1 w1 show ?thesis by (simp add: loop_round_def)
qed

lemma round_lookup:
  assumes "resolved m = 0" and "0 < qlen m" and "qlen m \<le> int (length (queue m))"
    and "buf_ok m" and "\<forall>r\<in>set (list m). wf_map r"
  shows "\<exists>m2 w2. same_engine m m2 \<and> buf_ok m2 \<and> same_world w w2 \<and>
     (if (if flag_nomap (vb w) then 0
          else ambiguous_count t (queue m) (qlen m) (mode_id (vb w)) (list m)) \<noteq> 0
      then loop_round X t mt st m w = Inr (Return MAP_AMBIGUOUS st m2 w2)
      else (case (if flag_nomap (vb w) then None
                  else best None (filter (full_match (queue m) (qlen m) (mode_id (vb w))) (list m))) of
              Some r \<Rightarrow>
                loop_round X t mt st m w =
                  (case substitute r m2 of
                     Inl e \<Rightarrow> Inl e
                   | Inr m3 \<Rightarrow> Inr (Continue (Some r) (st @ [Mapped r]) m3 w2))
            | None \<Rightarrow>
                (\<exists>m3 w3. loop_round X t mt st m w =
                     Inr (Continue None (st @ [Literal (first_key m)]) m3 w3) \<and>
                   same_engine (m\<lparr>resolved := 1\<rparr>) m3 \<and> buf_ok m3 \<and> same_world w w3)))"
proof -
  let ?amb = "if flag_nomap (vb w) then 0
              else ambiguous_count t (queue m) (qlen m) (mode_id (vb w)) (list m)"
  let ?bm = "if flag_nomap (vb w) then None
             else best None (filter (full_match (queue m) (qlen m) (mode_id (vb w))) (list m))"
  from assms(1) have d: "drain X m w = Inr (m, w)" by (simp add: drain_noop)
  from assms(2) have q0: "0 \<le> qlen m" "qlen m \<noteq> 0" by simp_all
  from lookup_ok [OF assms(5) q0(1) assms(3,4), of X t w] obtain m2 w2 where
    lk: "lookup X t m w = Inr (?amb, ?bm, m2, w2)" and se: "same_engine m m2"
    and b2: "buf_ok m2" and sw: "same_world w w2" by blast
  show ?thesis
  proof (cases "?amb \<noteq> 0")
    case True
    with d q0 lk have "loop_round X t mt st m w = Inr (Return MAP_AMBIGUOUS st m2 w2)"
      by (simp add: loop_round_def)
    with True se b2 sw show ?thesis by auto
  next
    case az: False
    show ?thesis
    proof (cases ?bm)
      case (Some r)
      with d q0 lk az have "loop_round X t mt st m w =
                  (case substitute r m2 of
                     Inl e \<Rightarrow> Inl e
                   | Inr m3 \<Rightarrow> Inr (Continue (Some r) (st @ [Mapped r]) m3 w2))"
        by (simp add: loop_round_def)
      with az Some se b2 sw show ?thesis by auto
    next
      case None
      from se have m2: "queue m2 = queue m" "qlen m2 = qlen m" by (simp_all add: same_engine_def)
      from assms(2,3) have pos: "0 < length (queue m)" by auto
      from m2 have fk: "first_key m2 = first_key m" by (simp add: first_key_def)
      let ?m2' = "m2\<lparr>resolved := 1\<rparr>"
      from b2 have "length (showbuf ?m2') = 12" "True \<Longrightarrow> 0 \<le> slen ?m2' \<and> slen ?m2' \<le> 11"
        by (simp_all add: buf_ok_def)
      moreover from pos have "(0::int) \<le> 1" "1 \<le> int (length (queue m2))"
        by (simp_all add: Suc_leI m2)
      ultimately obtain m3 w3 where
        sc: "showcmd X (queue m2) 1 True ?m2' w2 = Inr (m3, w3)" and b3: "buf_ok m3"
        using showcmd_ok [of ?m2' True 1 "queue m2" X w2] by blast
      from showcmd_same [OF sc] se sw
      have "same_engine (m\<lparr>resolved := 1\<rparr>) m3" "same_world w w3"
        by (simp_all add: same_engine_def same_world_def)
      moreover from d q0 lk az None sc fk
      have "loop_round X t mt st m w = Inr (Continue None (st @ [Literal (first_key m)]) m3 w3)"
        by (simp add: loop_round_def)
      ultimately show ?thesis using az None se b2 sw b3 by auto
    qed
  qed
qed

lemma single_unmapped_key:
  assumes "qlen m = 0" and "resolved m = 0" and "0 < length (queue m)" and "buf_ok m"
    and wf: "\<forall>r\<in>set (list m). wf_map r"
    and np: "no_prefix_of k (mode_id (vb w)) (list m)"
  shows "\<exists>m' w'. map_handle_keys X [k] m w = Some (Inr (MAP_NOMATCH, [Literal k], m', w')) \<and>
           sent w' = sent w @ [k] \<and> qlen m' = 0 \<and> resolved m' = 0"
proof -
  obtain m1 w1 where s: "(if [k] \<noteq> [] then restart_timer m w else (m, w)) = (m1, w1)"
    by force
  note f1 = start_ok [OF s]
  let ?q = "(queue m1)[0 := k]"
  let ?m2 = "m1\<lparr>queue := ?q, qlen := 1\<rparr>"
  let ?md = "mode_id (vb w1)"
  from assms(1,3) f1 have a: "append_keys [k] m1 = Inr ?m2" by (simp add: wr_def)
  have u: "map_handle_keys X [k] m w = resolve_loop X False None [] ?m2 w1"
    using s a by (auto simp: map_handle_keys_def)
  from assms(3) f1 have "queue m1 \<noteq> []" by auto
  then obtain c cs where "queue m1 = c # cs" using list.exhaust by blast
  then have tk: "take 1 ?q = [k]" and fk: "first_key ?m2 = k"
    by (simp_all add: first_key_def)
  have na: "\<not> ambiguous_match ?q 1 ?md r" if "r \<in> set (list ?m2)" for r
  proof
    assume am: "ambiguous_match ?q 1 ?md r"
    with that np f1 have "inkeys r \<noteq> []" "hd (inkeys r) \<noteq> k"
      by (auto simp: no_prefix_of_def ambiguous_match_def)
    moreover from am tk have "take 1 (inkeys r) = [k]" by (simp add: ambiguous_match_def)
    ultimately show False by (cases "inkeys r") simp_all
  qed
  have nf: "\<not> full_match ?q 1 ?md r" if "r \<in> set (list ?m2)" for r
  proof
    assume fm: "full_match ?q 1 ?md r"
    with that np f1 have ne: "inkeys r \<noteq> []" "hd (inkeys r) \<noteq> k"
      by (auto simp: no_prefix_of_def full_match_def)
    from that wf f1 have "inlen r = int (length (inkeys r))" by (simp add: wf_map_def)
    with fm ne have "inlen r = 1" by (cases "inkeys r") (auto simp: full_match_def)
    with fm tk have "inkeys r = [k]" by (simp add: full_match_def)
    with ne show False by simp
  qed
  from na have amb: "ambiguous_count False ?q 1 ?md (list ?m2) = 0"
    by (simp add: ambiguous_count_def filter_False)
  from nf have bm: "best None (filter (full_match ?q 1 ?md) (list ?m2)) = None"
    by (simp add: filter_False)
  from assms(2,3,4) wf f1 have "resolved ?m2 = 0" "0 < qlen ?m2" "qlen ?m2 \<le> int (length (queue ?m2))"
    "buf_ok ?m2" "\<forall>r\<in>set (list ?m2). wf_map r" by (auto simp: buf_ok_def Suc_leI)
  from round_lookup [OF this, of w1 False X None "[]"] amb bm assms(3) f1 fk
  obtain m3 w3 where r1: "loop_round X False None [] ?m2 w1 = Inr (Continue None [Literal k] m3 w3)"
    and m3: "same_engine (?m2\<lparr>resolved := 1\<rparr>) m3" "buf_ok m3" and w3: "same_world w1 w3"
    by (auto split: if_splits)
  from m3 assms(3) f1 have "queue_ok m3" "resolved m3 = qlen m3" and q3: "qlen m3 = 1"
    "queue m3 = ?q"
    by (simp_all add: same_engine_def queue_ok_def Suc_leI)
  from round_final [OF this(1,2) m3(2), of X False None "[Literal k]" w3] obtain m' w' where
    r2: "loop_round X False None [Literal k] m3 w3 = Inr (Return MAP_NOMATCH [Literal k] m' w')"
    and f: "qlen m' = 0" "resolved m' = 0" "sent w' = sent w3 @ take (nat (qlen m3)) (queue m3)"
    by auto
  from f q3 tk w3 f1 have "sent w' = sent w @ [k]" by (simp add: same_world_def)
  moreover have "resolve_loop X False None [] ?m2 w1 = Some (Inr (MAP_NOMATCH, [Literal k], m', w'))"
    by (subst resolve_loop.simps, simp add: r1, subst resolve_loop.simps, simp add: r2)
  ultimately show ?thesis using u f by simp
qed

lemma round_keeps_last_mapped:
  assumes "loop_round X t mt st m w = Inr (Continue mt' st' m' w')"
  shows "mt' = None \<longleftrightarrow> \<not> last_mapped st'"
  using loop_round_Inr [OF assms]
  by (auto simp: last_mapped_def split: if_splits option.splits)

lemma done_iff_last_mapped:
  assumes "map_handle_keys X keys m w = Some (Inr (r, st, m', w'))" and "r \<noteq> MAP_AMBIGUOUS"
  shows "qlen m' = 0 \<and> resolved m' = 0 \<and> (r = MAP_DONE \<longleftrightarrow> last_mapped st) \<and>
         (r = MAP_NOMATCH \<longleftrightarrow> \<not> last_mapped st)"
proof -
  from assms(1) obtain m1 w1 m2 where
    r: "resolve_loop X (keys = []) None [] m2 w1 = Some (Inr (r, st, m', w'))"
    by (rule map_handle_keys_Inr)
  have "\<exists>mt0 st0 m0 w0. (mt0 = None \<longleftrightarrow> \<not> last_mapped st0) \<and>
          loop_round X (keys = []) mt0 st0 m0 w0 =
            (case Inr (r, st, m', w') of Inl e \<Rightarrow> Inl e
             | Inr (r, st', m', w') \<Rightarrow> Inr (Return r st' m' w'))"
  proof (rule resolve_loop_last_round [OF r])
    show "(None :: Map option) = None \<longleftrightarrow> \<not> last_mapped []" by (simp add: last_mapped_def)
  next
    fix mt st m w mt' st' m' w'
    assume "loop_round X (keys = []) mt st m w = Inr (Continue mt' st' (m' :: map_state) w')"
    then show "mt' = None \<longleftrightarrow> \<not> last_mapped st'" by (rule round_keeps_last_mapped)
  qed
  then obtain mt0 st0 m0 w0 where i: "mt0 = None \<longleftrightarrow> \<not> last_mapped st0"
    and l: "loop_round X (keys = []) mt0 st0 m0 w0 = Inr (Return r st m' w')" by force
  from loop_round_Inr [OF l] assms(2) i show ?thesis
    by (auto split: if_splits option.splits)
qed

lemma strncpy_overflow:
  "0 \<le> k \<Longrightarrow> k \<le> int (length q) \<Longrightarrow> int (length q) < k + n \<Longrightarrow>
     strncpy q s k n = Inl OutOfBounds"
proof (induction "nat (int (length q) - k)" arbitrary: q s k n)
  case 0
  then have e: "k = int (length q)" by simp
  with 0 have "n \<noteq> 0" by simp
  with e show ?case by (subst strncpy.simps) (simp add: wr_def)
next
  case (Suc d)
  then have lt: "k < int (length q)" and nz: "n \<noteq> 0" by auto
  let ?c = "case s of [] \<Rightarrow> NUL | c # x \<Rightarrow> c"
  let ?q1 = "q[nat k := ?c]"
  from lt Suc.prems have w: "wr q k ?c = Inr ?q1" by (simp add: wr_def)
  from Suc.hyps(2) have "d = nat (int (length ?q1) - (k + 1))" by simp
  moreover from lt Suc.prems have "0 \<le> k + 1" "k + 1 \<le> int (length ?q1)"
    "int (length ?q1) < k + 1 + (n - 1)" by simp_all
  ultimately have "strncpy ?q1 (tl s) (k + 1) (n - 1) = Inl OutOfBounds"
    by (rule Suc.hyps(1))
  with nz w show ?case by (subst strncpy.simps) simp
qed

lemma substitute_overflow:
  assumes "0 \<le> inlen r" and "inlen r \<le> qlen m" and "qlen m \<le> int (length (queue m))"
    and "inlen r < mappedlen r"
    and "int (length (queue m)) < qlen m + mappedlen r - inlen r"
  shows "substitute r m = Inl OutOfBounds"
proof (cases "inlen r < qlen m")
  case True
  with assms have "rd (queue m) (qlen m - 1) = Inr (queue m ! nat (qlen m - 1))"
    by (simp add: rd_def)
  moreover from assms
  have "wr (queue m) (qlen m + mappedlen r - inlen r - 1) (queue m ! nat (qlen m - 1)) = Inl OutOfBounds"
    by (simp add: wr_def)
  ultimately have "make_space (queue m) (qlen m + mappedlen r - inlen r) (qlen m) (inlen r) =
      Inl OutOfBounds"
    using True by (subst make_space.simps) simp
  with assms(4) show ?thesis by (simp add: substitute_def)
next
  case False
  with assms have e: "inlen r = qlen m" by simp
  then have "make_space (queue m) (qlen m + mappedlen r - inlen r) (qlen m) (inlen r) =
      Inr (queue m)"
    by (subst make_space.simps) simp
  moreover from assms e have "strncpy (queue m) (mapped r) 0 (mappedlen r) = Inl OutOfBounds"
    by (intro strncpy_overflow) simp_all
  ultimately show ?thesis using assms(4) by (simp add: substitute_def)
qed

lemma substitute_then_drain:
  assumes "0 \<le> inlen r" and "inlen r \<le> qlen m" and "qlen m \<le> int (length (queue m))"
    and "mappedlen r = int (length (mapped r))"
    and "qlen m + \<bar>mappedlen r - inlen r\<bar> \<le> int (length (queue m))"
    and "0 < length (showbuf m)"
  shows "\<exists>m'. substitute r m = Inr m' \<and>
           qlen m' = qlen m + (mappedlen r - inlen r) \<and>
           resolved m' = min (inlen r) (mappedlen r) \<and>
           take (nat (qlen m')) (queue m') =
             mapped r @ drop (nat (inlen r)) (take (nat (qlen m)) (queue m)) \<and>
           (\<exists>m'' w''. drain X m' w = Inr (m'', w'') \<and>
              sent w'' = sent w @ take (nat (min (inlen r) (mappedlen r))) (mapped r) \<and>
              resolved m'' = 0 \<and> qlen m'' = qlen m' - min (inlen r) (mappedlen r))"
proof -
  from substitute_ok [OF assms(1-5)] obtain m' where
    s: "substitute r m = Inr m'" and m': "length (queue m') = length (queue m)"
    "qlen m' = qlen m + mappedlen r - inlen r" "resolved m' = min (inlen r) (mappedlen r)"
    "take (nat (qlen m')) (queue m') = mapped r @ drop (nat (inlen r)) (take (nat (qlen m)) (queue m))"
    "showbuf m' = showbuf m"
    by blast
  from assms m' have qo: "queue_ok m'" by (auto simp: queue_ok_def)
  from m' assms(6) have "0 < length (showbuf m')" by simp
  from drain_ok [OF qo this, of X w] obtain m'' w'' where
    d: "drain X m' w = Inr (m'', w'')" and m'': "resolved m'' = 0" "qlen m'' = qlen m' - resolved m'"
    and w'': "sent w'' = sent w @ take (nat (resolved m')) (queue m')"
    by blast
  from qo have "nat (resolved m') \<le> nat (qlen m')" by (auto simp: queue_ok_def)
  then have "take (nat (resolved m')) (queue m') = take (nat (resolved m')) (take (nat (qlen m')) (queue m'))"
    by (simp add: min_def)
  also have "\<dots> = take (nat (resolved m')) (mapped r)"
    using m' assms(4) by simp
  finally have "sent w'' = sent w @ take (nat (min (inlen r) (mappedlen r))) (mapped r)"
    using w'' m' by simp
  with s m' d m'' show ?thesis by simp
qed

lemma lookup_selects:
  assumes "\<forall>r\<in>set (list m). wf_map r" and "0 \<le> qlen m" and "qlen m \<le> int (length (queue m))"
    and "buf_ok m" and "\<not> flag_nomap (vb w)"
  shows "\<exists>a mt m' w'. lookup X t m w = Inr (a, mt, m', w') \<and>
     (mt = None \<longleftrightarrow> filter (full_match (queue m) (qlen m) (mode_id (vb w))) (list m) = []) \<and>
     (\<forall>r. mt = Some r \<longrightarrow>
        (\<exists>pre post. filter (full_match (queue m) (qlen m) (mode_id (vb w))) (list m) = pre @ r # post \<and>
           (\<forall>x\<in>set pre. inlen x < inlen r) \<and> (\<forall>x\<in>set post. inlen x \<le> inlen r)) \<and>
        (\<forall>r2 l. list m = r2 # l \<and> inkeys r2 = inkeys r \<and> mode r2 = mode r \<longrightarrow> r = r2))"
proof -
  let ?P = "full_match (queue m) (qlen m) (mode_id (vb w))"
  let ?mt = "best None (filter ?P (list m))"
  from lookup_ok [OF assms(1-4), of X t w] assms(5) obtain a m' w' where
    lk: "lookup X t m w = Inr (a, ?mt, m', w')" by auto
  note bc = best_None_char [of "filter ?P (list m)"]
  have "r = r2" if mt: "?mt = Some r" and l: "list m = r2 # l" and e: "inkeys r2 = inkeys r"
    "mode r2 = mode r" for r r2 l
  proof -
    from bc mt obtain pre post where c: "filter ?P (list m) = pre @ r # post"
      and p: "\<forall>x\<in>set pre. inlen x < inlen r" by blast
    from best_filter_member [OF mt] have rl: "r \<in> set (list m)" and fr: "?P r" by simp_all
    from assms(1) rl l have "wf_map r" "wf_map r2" by auto
    then have "inlen r = int (length (inkeys r))" "inlen r2 = int (length (inkeys r2))"
      by (simp_all add: wf_map_def)
    with e have ie: "inlen r2 = inlen r" by simp
    with fr e have "?P r2" by (simp add: full_match_def)
    with l c have h: "r2 # filter ?P l = pre @ r # post" by simp
    show ?thesis
    proof (cases pre)
      case Nil
      with h show ?thesis by simp
    next
      case (Cons x xs)
      with h have "x = r2" by simp
      with Cons p ie show ?thesis by simp
    qed
  qed
  note same = this
  show ?thesis
  proof (intro exI conjI)
    show "lookup X t m w = Inr (a, ?mt, m', w')" by (rule lk)
    show "(?mt = None) = (filter ?P (list m) = [])" using bc by blast
    show "\<forall>r. ?mt = Some r \<longrightarrow>
        (\<exists>pre post. filter ?P (list m) = pre @ r # post \<and>
           (\<forall>x\<in>set pre. inlen x < inlen r) \<and> (\<forall>x\<in>set post. inlen x \<le> inlen r)) \<and>
        (\<forall>r2 l. list m = r2 # l \<and> inkeys r2 = inkeys r \<and> mode r2 = mode r \<longrightarrow> r = r2)"
      using bc same by blast
  qed
qed

lemma map_insert_prepends:
  "list (map_insert inp mp md m) =
     \<lparr>inkeys = fst (map_convert_keys inp), inlen = int (snd (map_convert_keys inp)),
      mapped = fst (map_convert_keys mp), mappedlen = int (snd (map_convert_keys mp)),
      mode = md\<rparr> # list m"
  by (simp add: map_insert_def Let_def split: prod.splits)

lemma length_ge_3:
  assumes "3 \<le> length (q :: 'a list)"
  shows "\<exists>c1 c2 c3 cs. q = c1 # c2 # c3 # cs"
proof -
  from assms obtain c1 q1 where 1: "q = c1 # q1" by (cases q) auto
  with assms obtain c2 q2 where 2: "q1 = c2 # q2" by (cases q1) auto
  with 1 assms obtain c3 q3 where "q2 = c3 # q3" by (cases q2) auto
  with 1 2 show ?thesis by simp
qed

lemma two_maps_wf: "two_maps md m \<Longrightarrow> \<forall>r\<in>set (list m). wf_map r"
  by (auto simp: two_maps_def wf_map_def rec_a_def rec_ab_def)

lemma feed_a:
  assumes "two_maps md m" and "qlen m = 0" and "resolved m = 0" and "3 \<le> length (queue m)"
    and "buf_ok m" and "mode_id (vb w) = md" and "\<not> flag_nomap (vb w)"
  shows "\<exists>m' w'. map_handle_keys X ''a'' m w = Some (Inr (MAP_AMBIGUOUS, [], m', w')) \<and>
           sent w' = sent w \<and> pending_a md m' w'"
proof -
  obtain m1 w1 where s: "(if ''a'' \<noteq> [] then restart_timer m w else (m, w)) = (m1, w1)"
    by force
  note f1 = start_ok [OF s]
  from f1 have f: "qlen m1 = qlen m" "resolved m1 = resolved m" by simp_all
  let ?q = "(queue m1)[0 := CHR ''a'']"
  let ?m2 = "m1\<lparr>queue := ?q, qlen := 1\<rparr>"
  from length_ge_3 [OF assms(4)] f1 obtain c1 c2 c3 cs where
    sh: "queue m1 = c1 # c2 # c3 # cs" by auto
  from assms(2) f sh have a: "append_keys ''a'' m1 = Inr ?m2" by (simp add: wr_def)
  have u: "map_handle_keys X ''a'' m w = resolve_loop X False None [] ?m2 w1"
    using s a by (auto simp: map_handle_keys_def)
  from sh have tk: "take (Suc 0) ?q = ''a''" "?q ! 0 = CHR ''a''" by simp_all
  from assms(1) f1 tk assms(6) have amb:
    "ambiguous_count False ?q 1 (mode_id (vb w1)) (list ?m2) = 1"
    by (auto simp: two_maps_def ambiguous_count_def ambiguous_match_def rec_a_def rec_ab_def)
  from assms f1 two_maps_wf [OF assms(1)]
  have "resolved ?m2 = 0" "0 < qlen ?m2" "qlen ?m2 \<le> int (length (queue ?m2))"
    "buf_ok ?m2" "\<forall>r\<in>set (list ?m2). wf_map r" by (auto simp: buf_ok_def)
  from round_lookup [OF this, of w1 False X None "[]"] amb assms(7) f1
  obtain m3 w3 where r1: "loop_round X False None [] ?m2 w1 = Inr (Return MAP_AMBIGUOUS [] m3 w3)"
    and m3: "same_engine ?m2 m3" "buf_ok m3" and w3: "same_world w1 w3"
    by (auto split: if_splits)
  have "resolve_loop X False None [] ?m2 w1 = Some (Inr (MAP_AMBIGUOUS, [], m3, w3))"
    by (subst resolve_loop.simps) (simp add: r1)
  moreover from m3 w3 f1 assms tk have "pending_a md m3 w3"
    by (simp add: pending_a_def same_engine_def same_world_def two_maps_def)
  moreover from w3 f1 have "sent w3 = sent w" by (simp add: same_world_def)
  ultimately show ?thesis using u by simp
qed

lemma feed_b:
  assumes "pending_a md m w"
  shows "\<exists>st m' w'. map_handle_keys X ''b'' m w = Some (Inr (MAP_DONE, st, m', w')) \<and>
           sent w' = sent w @ ''2''"
proof -
  from assms have tm: "two_maps md m" and q: "qlen m = 1" "resolved m = 0"
    "3 \<le> length (queue m)" "queue m ! 0 = CHR ''a''" and b: "buf_ok m"
    and v: "mode_id (vb w) = md" "\<not> flag_nomap (vb w)" by (simp_all add: pending_a_def)
  obtain m1 w1 where s: "(if ''b'' \<noteq> [] then restart_timer m w else (m, w)) = (m1, w1)"
    by force
  note f1 = start_ok [OF s]
  from f1 have f: "qlen m1 = qlen m" "resolved m1 = resolved m" by simp_all
  let ?q = "(queue m1)[1 := CHR ''b'']"
  let ?m2 = "m1\<lparr>queue := ?q, qlen := 2\<rparr>"
  from length_ge_3 [OF q(3)] f1 obtain c1 c2 c3 cs where
    sh: "queue m1 = c1 # c2 # c3 # cs" by auto
  from q(4) f1 have "queue m1 ! 0 = CHR ''a''" by simp
  with sh have c1: "c1 = CHR ''a''" by simp
  from q(1) f sh have a: "append_keys ''b'' m1 = Inr ?m2" by (simp add: wr_def)
  have u: "map_handle_keys X ''b'' m w = resolve_loop X False None [] ?m2 w1"
    using s a by (auto simp: map_handle_keys_def)
  from sh c1 have tk: "take 2 ?q = ''ab''" "take (Suc 0) ?q = ''a''" by simp_all
  let ?md = "mode_id (vb w1)"
  from tm f1 v have amb: "ambiguous_count False ?q 2 ?md (list ?m2) = 0"
    by (auto simp: two_maps_def ambiguous_count_def ambiguous_match_def rec_a_def rec_ab_def)
  from tm f1 v tk have bm:
    "best None (filter (full_match ?q 2 ?md) (list ?m2)) = Some (rec_ab md)"
    by (auto simp: two_maps_def full_match_def rec_a_def rec_ab_def)
  from q b f1 two_maps_wf [OF tm]
  have "resolved ?m2 = 0" "0 < qlen ?m2" "qlen ?m2 \<le> int (length (queue ?m2))"
    "buf_ok ?m2" "\<forall>r\<in>set (list ?m2). wf_map r" by (auto simp: buf_ok_def)
  from round_lookup [OF this, of w1 False X None "[]"] amb bm v f1
  obtain m3 w3 where se: "same_engine ?m2 m3" and b3: "buf_ok m3" and w3: "same_world w1 w3"
    and r1: "loop_round X False None [] ?m2 w1 =
      (case substitute (rec_ab md) m3 of Inl e \<Rightarrow> Inl e
       | Inr m4 \<Rightarrow> Inr (Continue (Some (rec_ab md)) ([] @ [Mapped (rec_ab md)]) m4 w3))"
    by (auto split: if_splits)
  from se q f1 have m3: "qlen m3 = 2" "queue m3 = ?q" "length (queue m3) = length (queue m)"
    by (simp_all add: same_engine_def)
  from m3 q have "0 \<le> inlen (rec_ab md)" "inlen (rec_ab md) \<le> qlen m3"
    "qlen m3 \<le> int (length (queue m3))"
    "mappedlen (rec_ab md) = int (length (mapped (rec_ab md)))"
    "qlen m3 + \<bar>mappedlen (rec_ab md) - inlen (rec_ab md)\<bar> \<le> int (length (queue m3))"
    by (simp_all add: rec_ab_def)
  from substitute_ok [OF this] obtain m4 where
    sb: "substitute (rec_ab md) m3 = Inr m4" and m4: "length (queue m4) = length (queue m3)"
    "qlen m4 = qlen m3 + mappedlen (rec_ab md) - inlen (rec_ab md)"
    "resolved m4 = min (inlen (rec_ab md)) (mappedlen (rec_ab md))"
    "take (nat (qlen m4)) (queue m4) =
       mapped (rec_ab md) @ drop (nat (inlen (rec_ab md))) (take (nat (qlen m3)) (queue m3))"
    "showbuf m4 = showbuf m3" "slen m4 = slen m3"
    by blast
  from m4 m3 tk have q4: "qlen m4 = 1" "resolved m4 = 1" "take (Suc 0) (queue m4) = ''2''"
    by (simp_all add: rec_ab_def)
  from q4 m4 m3 q have "queue_ok m4" "resolved m4 = qlen m4" by (simp_all add: queue_ok_def)
  moreover from b3 m4 have "buf_ok m4" by (simp add: buf_ok_def)
  ultimately obtain m' w' where
    r2: "loop_round X False (Some (rec_ab md)) [Mapped (rec_ab md)] m4 w3 =
           Inr (Return MAP_DONE [Mapped (rec_ab md)] m' w')"
    and f: "sent w' = sent w3 @ take (nat (qlen m4)) (queue m4)"
    using round_final [of m4 X False "Some (rec_ab md)" "[Mapped (rec_ab md)]" w3] by auto
  have "resolve_loop X False None [] ?m2 w1 = Some (Inr (MAP_DONE, [Mapped (rec_ab md)], m', w'))"
    by (subst resolve_loop.simps, subst r1, simp add: sb, subst resolve_loop.simps, simp add: r2)
  moreover from f q4 w3 f1 have "sent w' = sent w @ ''2''" by (simp add: same_world_def)
  ultimately show ?thesis using u by simp
qed

lemma timeout_after_a:
  assumes "pending_a md m w"
  shows "\<exists>st m' w'. map_handle_keys X [] m w = Some (Inr (MAP_DONE, st, m', w')) \<and>
           sent w' = sent w @ ''1''"
proof -
  from assms have tm: "two_maps md m" and q: "qlen m = 1" "resolved m = 0"
    "3 \<le> length (queue m)" "queue m ! 0 = CHR ''a''" and b: "buf_ok m"
    and v: "mode_id (vb w) = md" "\<not> flag_nomap (vb w)" by (simp_all add: pending_a_def)
  have u: "map_handle_keys X [] m w = resolve_loop X True None [] m w"
    by (simp add: map_handle_keys_def)
  from length_ge_3 [OF q(3)] obtain c1 c2 c3 cs where
    sh: "queue m = c1 # c2 # c3 # cs" by auto
  with q(4) have tk: "take (Suc 0) (queue m) = ''a''" by simp
  let ?md = "mode_id (vb w)"
  have amb: "ambiguous_count True (queue m) 1 ?md (list m) = 0"
    by (simp add: ambiguous_count_def)
  from tm v tk have bm:
    "best None (filter (full_match (queue m) 1 ?md) (list m)) = Some (rec_a md)"
    by (auto simp: two_maps_def full_match_def rec_a_def rec_ab_def)
  from q b two_maps_wf [OF tm]
  have "resolved m = 0" "0 < qlen m" "qlen m \<le> int (length (queue m))"
    "buf_ok m" "\<forall>r\<in>set (list m). wf_map r" by (auto simp: buf_ok_def)
  from round_lookup [OF this, of w True X None "[]"] amb bm v q
  obtain m3 w3 where se: "same_engine m m3" and b3: "buf_ok m3" and w3: "same_world w w3"
    and r1: "loop_round X True None [] m w =
      (case substitute (rec_a md) m3 of Inl e \<Rightarrow> Inl e
       | Inr m4 \<Rightarrow> Inr (Continue (Some (rec_a md)) ([] @ [Mapped (rec_a md)]) m4 w3))"
    by (auto split: if_splits)
  from se q have m3: "qlen m3 = 1" "queue m3 = queue m" by (simp_all add: same_engine_def)
  from m3 q have "0 \<le> inlen (rec_a md)" "inlen (rec_a md) \<le> qlen m3"
    "qlen m3 \<le> int (length (queue m3))"
    "mappedlen (rec_a md) = int (length (mapped (rec_a md)))"
    "qlen m3 + \<bar>mappedlen (rec_a md) - inlen (rec_a md)\<bar> \<le> int (length (queue m3))"
    by (simp_all add: rec_a_def)
  from substitute_ok [OF this] obtain m4 where
    sb: "substitute (rec_a md) m3 = Inr m4" and m4: "length (queue m4) = length (queue m3)"
    "qlen m4 = qlen m3 + mappedlen (rec_a md) - inlen (rec_a md)"
    "resolved m4 = min (inlen (rec_a md)) (mappedlen (rec_a md))"
    "take (nat (qlen m4)) (queue m4) =
       mapped (rec_a md) @ drop (nat (inlen (rec_a md))) (take (nat (qlen m3)) (queue m3))"
    "showbuf m4 = showbuf m3" "slen m4 = slen m3"
    by blast
  from m4 m3 tk have q4: "qlen m4 = 1" "resolved m4 = 1" "take (Suc 0) (queue m4) = ''1''"
    by (simp_all add: rec_a_def)
  from q4 m4 m3 q have "queue_ok m4" "resolved m4 = qlen m4" by (simp_all add: queue_ok_def)
  moreover from b3 m4 have "buf_ok m4" by (simp add: buf_ok_def)
  ultimately obtain m' w' where
    r2: "loop_round X True (Some (rec_a md)) [Mapped (rec_a md)] m4 w3 =
           Inr (Return MAP_DONE [Mapped (rec_a md)] m' w')"
    and f: "sent w' = sent w3 @ take (nat (qlen m4)) (queue m4)"
    using round_final [of m4 X True "Some (rec_a md)" "[Mapped (rec_a md)]" w3] by auto
  have "resolve_loop X True None [] m w = Some (Inr (MAP_DONE, [Mapped (rec_a md)], m', w'))"
    by (subst resolve_loop.simps, subst r1, simp add: sb, subst resolve_loop.simps, simp add: r2)
  moreover from f q4 w3 have "sent w' = sent w @ ''1''" by (simp add: same_world_def)
  ultimately show ?thesis using u by simp
qed

lemma weight_Nil: "weight wt [] = 0"
  by (simp add: weight_def)

lemma weight_append: "weight wt (xs @ ys) = weight wt xs + weight wt ys"
  by (simp add: weight_def)

lemma weight_take_drop: "weight wt (take n xs) + weight wt (drop n xs) = weight wt xs"
  using weight_append [of wt "take n xs" "drop n xs"] by simp


lemma weight_drop_le: "weight wt (drop n xs) \<le> weight wt xs"
  using weight_take_drop [of wt n xs] by linarith

lemma length_le_weight: "\<forall>c. 0 < wt c \<Longrightarrow> length xs \<le> weight wt xs"
proof (induction xs)
  case Nil
  then show ?case by simp
next
  case (Cons x xs)
  then have "0 < wt x" and "length xs \<le> weight wt xs" by simp_all
  then have "Suc (length xs) \<le> wt x + weight wt xs" by linarith
  then show ?case by (simp add: weight_def)
qed











text \<open>
  A table whose records have a non-empty lhs and an rhs no longer than the lhs is
  weighted, with the weight 1 for every key: a substitution leaves nothing for another
  lookup.
\<close>

lemma weighted_table_no_expansion:
  assumes "\<forall>r\<in>set (list m). wf_map r \<and> 1 \<le> inlen r \<and> mappedlen r \<le> inlen r"
  shows "weighted_table (\<lambda>c. 1) m"
proof -
  have "wf_map r \<and> weight (\<lambda>c. 1) (drop (nat (inlen r)) (mapped r)) < weight (\<lambda>c. 1) (inkeys r)"
    if "r \<in> set (list m)" for r
  proof -
    from that assms have w: "wf_map r" and l: "1 \<le> inlen r" "mappedlen r \<le> inlen r" by auto
    from w l have "drop (nat (inlen r)) (mapped r) = []" "inkeys r \<noteq> []"
      by (auto simp: wf_map_def)
    with w length_le_weight [of "\<lambda>c. 1" "inkeys r"] show ?thesis
      by (cases "inkeys r") (simp_all add: weight_def)
  qed
  then show ?thesis by (simp add: weighted_table_def)
qed

text \<open>No weights exist for a record whose rhs ends with its own lhs, such as \<open>a \<rightarrow> ba\<close>.\<close>

lemma self_trigger_not_weighted:
  assumes "r \<in> set (list m)" and "drop (nat (inlen r)) (mapped r) = inkeys r"
  shows "\<not> weighted_table wt m"
proof
  assume "weighted_table wt m"
  with assms(1) have "weight wt (drop (nat (inlen r)) (mapped r)) < weight wt (inkeys r)"
    by (simp add: weighted_table_def)
  with assms(2) show False by simp
qed

lemmas engine_eval =
  map_handle_keys_def restart_timer_def g_timeout_add_def g_source_remove_def
  resolve_loop.simps loop_round_def lookup_def drain.simps lookup_loop.simps strncmp.simps
  showcmd_def showcmd_loop.simps show_key_def rd_def wr_def substitute_def make_space.simps
  delete_keys.simps strncpy.simps shift_left.simps first_key_def Let_def

lemmas ex_defs =
  ex_ext_def ex_map_def ex_world_def ex_table_def rec_a_def rec_ab_def rec_loop_def
  loop_state_def loop_world_def chain_table_def chain_weight_def

lemma ex_table_inserted:
  "map_insert ''ab'' ''2'' CHR ''n'' (map_insert ''a'' ''1'' CHR ''n'' ex_map) = ex_table"
  by (simp add: map_insert_def convert_eval ex_defs)

lemma ex_table_ok:
  "two_maps CHR ''n'' ex_table" "qlen ex_table = 0" "resolved ex_table = 0"
  "3 \<le> length (queue ex_table)" "buf_ok ex_table" "mode_id (vb ex_world) = CHR ''n''"
  "\<not> flag_nomap (vb ex_world)" "queue_ok ex_table" "0 < length (queue ex_table)"
  "\<forall>r\<in>set (list ex_table). wf_map r"
  by (simp_all add: two_maps_def buf_ok_def queue_ok_def wf_map_def ex_defs)




text \<open>
  A shrinking substitution in a full queue: the loop that closes the gap copies
  \<^verbatim>\<open>queue[j]\<close> up to \<open>j = qlen + inlen - mappedlen - 1\<close>, here one byte past the end.
\<close>

lemma shrink_full_queue_overread:
  "substitute (rec_ab CHR ''n'') (ex_table\<lparr>queue := ''abcd'', qlen := 4\<rparr>) = Inl OutOfBounds"
  by (simp add: engine_eval ex_defs)

lemma run_x:
  "map_handle_keys ex_ext ''x'' ex_table ex_world =
     Some (Inr (MAP_NOMATCH, [Literal CHR ''x''],
       ex_table\<lparr>queue := [CHR ''x'', NUL, NUL, NUL], timout_id := 1\<rparr>,
       ex_world\<lparr>timeouts := [1], next_id := 2, sent := ''x''\<rparr>))"
  by (simp add: engine_eval ex_defs)

lemma run_a:
  "map_handle_keys ex_ext ''a'' ex_table ex_world =
     Some (Inr (MAP_AMBIGUOUS, [],
       ex_table\<lparr>queue := [CHR ''a'', NUL, NUL, NUL], qlen := 1,
         showbuf := [CHR ''a'', NUL, NUL, NUL, NUL, NUL, NUL, NUL, NUL, NUL, NUL, NUL],
         slen := 1, timout_id := 1\<rparr>,
       ex_world\<lparr>cmd_text := ''a'', timeouts := [1], next_id := 2\<rparr>))"
  by (simp add: engine_eval ex_defs)




lemma dup_state_eq:
  "dup_state = ex_map\<lparr>list := [\<lparr>inkeys = ''a'', inlen = 1, mapped = ''9'', mappedlen = 1, mode = CHR ''n''\<rparr>,
       rec_a CHR ''n''], queue := [CHR ''a'', NUL, NUL, NUL], qlen := 1\<rparr>"
  by (simp add: dup_state_def map_insert_def convert_eval ex_defs)

lemma scan_label_token:
  assumes "CHR ''<'' \<notin> set ys" and "CHR '' '' \<notin> set ys" and "CHR ''>'' \<notin> set ys"
  shows "scan_label (xs @ ys @ CHR ''>'' # zs) (length xs) = length xs + length ys + 1"
  using assms
proof (induction ys arbitrary: xs)
  case Nil
  then show ?case by (subst scan_label.simps) (simp add: nth_append)
next
  case (Cons y ys)
  from Cons.prems have y: "y \<noteq> CHR ''<''" "y \<noteq> CHR '' ''" "y \<noteq> CHR ''>''" by auto
  from Cons.prems have "CHR ''<'' \<notin> set ys" "CHR '' '' \<notin> set ys" "CHR ''>'' \<notin> set ys" by auto
  from Cons.IH [OF this, of "xs @ [y]"]
  have ih: "scan_label (xs @ y # ys @ CHR ''>'' # zs) (length xs + 1) = length xs + length ys + 2"
    by simp
  show ?case
    using y ih by (subst scan_label.simps) (simp add: nth_append)
qed

lemma convert_plain_token:
  assumes "plain_token body"
  shows "map_convert_keys (CHR ''<'' # body @ ''>'') =
           (CHR ''<'' # body @ ''>'', length body + 2)"
proof -
  let ?t = "CHR ''<'' # body @ ''>''"
  from assms have b: "CHR ''<'' \<notin> set body" "CHR '' '' \<notin> set body" "CHR ''>'' \<notin> set body"
    and nc: "\<not> ctrl_token ?t" and nl: "body \<noteq> ''CR''" "body \<noteq> ''Tab''" "body \<noteq> ''Esc''"
    by (simp_all add: plain_token_def)
  from scan_label_token [OF b, of "[CHR ''<'']" "[]"]
  have sl: "scan_label ?t (Suc 0) = Suc (Suc (length body))" by simp
  have last: "?t ! (length body + 2 - 1) = CHR ''>''"
    by (simp add: nth_append)
  from nl have kl: "map_convert_keylabel ?t (length body + 2) = (None, 0)"
    by (auto simp: map_convert_keylabel_def keylabels_def)
  from nc have "\<not> (length body + 2 = 5 \<and> ?t ! 2 = CHR ''-'' \<and> ?t ! 1 = CHR ''C'' \<and>
     ((0x41::int) \<le> of_char (?t ! 3) \<and> of_char (?t ! 3) \<le> (0x5d::int) \<or>
      (0x61::int) \<le> of_char (?t ! 3) \<and> of_char (?t ! 3) \<le> (0x7a::int)))"
    by (simp add: ctrl_token_def)
  with last kl have "convert_symbol ?t (length body + 2) = (Some ?t, length body + 2)"
    unfolding convert_symbol_def by (auto simp: Let_def)
  then have cs: "convert_symbol ?t (Suc (Suc (length body))) = (Some ?t, Suc (Suc (length body)))"
    by simp
  show ?thesis
    unfolding map_convert_keys_def
    by (subst convert_loop.simps) (simp add: sl cs convert_loop.simps)
qed

lemma char_of_not_NUL:
  assumes "(0::int) < n" and "n < 256"
  shows "char_of n \<noteq> NUL"
proof
  assume "char_of n = NUL"
  then have "(of_char (char_of n) :: int) = of_char NUL" by simp
  then have "n mod 256 = (0::int)" by (simp add: of_char_of)
  with assms show False by simp
qed

lemma scan_label_le: "symlen \<le> length p \<Longrightarrow> scan_label p symlen \<le> length p"
proof (induction p symlen rule: scan_label.induct)
  case (1 p symlen)
  show ?case
  proof (cases "length p \<le> symlen \<or> p ! symlen = CHR ''<'' \<or> p ! symlen = CHR '' ''")
    case True
    with 1(2) show ?thesis by (subst scan_label.simps) simp
  next
    case False
    then have lt: "symlen < length p" by simp
    show ?thesis
    proof (cases "p ! symlen \<noteq> CHR ''>''")
      case True
      with False "1.IH" lt show ?thesis by (subst scan_label.simps) simp
    next
      case gt: False
      with False lt show ?thesis by (subst scan_label.simps) simp
    qed
  qed
qed

lemma keylabel_loop_wf:
  "keylabel_loop keylabels p n = (Some r, k) \<Longrightarrow> NUL \<notin> set r \<and> k = length r \<and> 0 < k"
  by (auto simp: keylabels_def split: if_splits)

lemma convert_symbol_wf:
  assumes "NUL \<notin> set p" and "0 < symlen" and "symlen \<le> length p"
  shows "\<exists>r k. convert_symbol p symlen = (Some r, k) \<and> NUL \<notin> set (take k r) \<and>
           length (take k r) = k"
proof -
  let ?c = "of_char (p ! 3) :: int"
  consider (up) "p ! (symlen - 1) = CHR ''>''" "symlen = 5" "p ! 2 = CHR ''-''" "p ! 1 = CHR ''C''"
      "0x41 \<le> ?c" "?c \<le> 0x5d"
    | (low) "p ! (symlen - 1) = CHR ''>''" "symlen = 5" "p ! 2 = CHR ''-''" "p ! 1 = CHR ''C''"
      "\<not> (0x41 \<le> ?c \<and> ?c \<le> 0x5d)" "0x61 \<le> ?c" "?c \<le> 0x7a"
    | (label) r k where "p ! (symlen - 1) = CHR ''>''"
      "\<not> (symlen = 5 \<and> p ! 2 = CHR ''-'' \<and> p ! 1 = CHR ''C'' \<and>
          (0x41 \<le> ?c \<and> ?c \<le> 0x5d \<or> 0x61 \<le> ?c \<and> ?c \<le> 0x7a))"
      "map_convert_keylabel p symlen = (Some r, k)"
    | (lit) "convert_symbol p symlen = (Some p, symlen)"
  proof -
    show thesis
    proof (cases "p ! (symlen - 1) = CHR ''>''")
      case False
      then have "convert_symbol p symlen = (Some p, symlen)"
        using assms(2) by (simp add: convert_symbol_def)
      then show ?thesis by (rule lit)
    next
      case gt: True
      show ?thesis
      proof (cases "symlen = 5 \<and> p ! 2 = CHR ''-'' \<and> p ! 1 = CHR ''C'' \<and>
          (0x41 \<le> ?c \<and> ?c \<le> 0x5d \<or> 0x61 \<le> ?c \<and> ?c \<le> 0x7a)")
        case True
        with gt up low show ?thesis by blast
      next
        case nc: False
        obtain ro k where kl: "map_convert_keylabel p symlen = (ro, k)" by force
        show ?thesis
        proof (cases ro)
          case (Some r)
          with gt nc kl label show ?thesis by blast
        next
          case None
          with kl have "k = 0"
            by (auto simp: map_convert_keylabel_def keylabels_def split: if_splits)
          with None kl gt nc assms(2) have "convert_symbol p symlen = (Some p, symlen)"
            by (auto simp: convert_symbol_def Let_def)
          then show ?thesis by (rule lit)
        qed
      qed
    qed
  qed
  then show ?thesis
  proof cases
    case up
    then have "convert_symbol p symlen = (Some [char_of (?c - 0x40)], 1)"
      by (simp add: convert_symbol_def)
    moreover from up have "char_of (?c - 0x40) \<noteq> NUL" by (intro char_of_not_NUL) simp_all
    ultimately show ?thesis by simp
  next
    case low
    then have "convert_symbol p symlen = (Some [char_of (?c - 0x60)], 1)"
      by (simp add: convert_symbol_def)
    moreover from low have "char_of (?c - 0x60) \<noteq> NUL" by (intro char_of_not_NUL) simp_all
    ultimately show ?thesis by simp
  next
    case label
    from label(3) have "keylabel_loop keylabels p symlen = (Some r, k)"
      by (simp add: map_convert_keylabel_def)
    from keylabel_loop_wf [OF this]
    have w: "NUL \<notin> set r" "k = length r" "0 < k" by blast+
    with label have "convert_symbol p symlen = (Some r, k)"
      by (auto simp: convert_symbol_def Let_def)
    with w show ?thesis by simp
  next
    case lit
    moreover from assms(1) have "NUL \<notin> set (take symlen p)" by (auto dest: in_set_takeD)
    ultimately show ?thesis using assms(3) by simp
  qed
qed

lemma convert_loop_wf:
  "NUL \<notin> set p \<Longrightarrow> NUL \<notin> set str \<Longrightarrow> len = length str \<Longrightarrow>
     NUL \<notin> set (fst (convert_loop p (str, len))) \<and>
     snd (convert_loop p (str, len)) = length (fst (convert_loop p (str, len)))"
proof (induction p "(str, len)" arbitrary: str len rule: convert_loop.induct)
  case (1 str len)
  then show ?case by (simp add: convert_loop.simps)
next
  case (2 c rest str len)
  show ?case
  proof (cases "c \<noteq> CHR ''<''")
    case True
    from 2(3-5) True have "NUL \<notin> set rest" "NUL \<notin> set (str @ [c])" "len + 1 = length (str @ [c])"
      by auto
    from "2.hyps"(1) [OF True this] True show ?thesis by (simp add: convert_loop.simps)
  next
    case False
    let ?p = "c # rest"
    let ?n = "scan_label ?p 1"
    have n: "0 < ?n" "?n \<le> length ?p"
      using scan_label_ge [of 1 ?p] scan_label_le [of 1 ?p] by simp_all
    from convert_symbol_wf [OF 2(3) n] obtain r k where
      cs: "convert_symbol ?p ?n = (Some r, k)" and w: "NUL \<notin> set (take k r)"
      "length (take k r) = k" by blast
    from 2(3) have "NUL \<notin> set (drop ?n ?p)" by (auto dest: in_set_dropD)
    moreover from 2(4) w have "NUL \<notin> set (str @ take k r)" by simp
    moreover from 2(5) w have "len + k = length (str @ take k r)" by simp
    ultimately have "NUL \<notin> set (fst (convert_loop (drop ?n ?p) (str @ take k r, len + k))) \<and>
        snd (convert_loop (drop ?n ?p) (str @ take k r, len + k)) =
          length (fst (convert_loop (drop ?n ?p) (str @ take k r, len + k)))"
      using "2.hyps"(2) [of ?n "(Some r, k)" "Some r" k] False cs by simp
    with False cs show ?thesis by (simp add: convert_loop.simps)
  qed
qed

lemma map_convert_keys_wf:
  "NUL \<notin> set inp \<Longrightarrow>
     NUL \<notin> set (fst (map_convert_keys inp)) \<and>
     snd (map_convert_keys inp) = length (fst (map_convert_keys inp))"
  unfolding map_convert_keys_def by (rule convert_loop_wf) simp_all

lemma map_insert_wf:
  assumes "NUL \<notin> set inp" and "NUL \<notin> set mp" and "\<forall>r\<in>set (list m). wf_map r"
  shows "\<forall>r\<in>set (list (map_insert inp mp md m)). wf_map r"
  using assms map_convert_keys_wf [of inp] map_convert_keys_wf [of mp]
  by (simp add: map_insert_prepends wf_map_def)

section \<open>The claims\<close>

subsection \<open>C1\<close>

text \<open>
  C1, as stated, fails: the key \<open>x\<close>, which no lhs of the table starts with, is sent on,
  and the call returns \<^verbatim>\<open>MAP_NOMATCH\<close>, not \<^verbatim>\<open>MAP_DONE\<close>.
\<close>

theorem unmapped_key_returns_nomatch:
  "no_prefix_of CHR ''x'' (mode_id (vb ex_world)) (list ex_table) \<and>
   map_handle_keys ex_ext ''x'' ex_table ex_world =
     Some (Inr (MAP_NOMATCH, [Literal CHR ''x''],
       ex_table\<lparr>queue := [CHR ''x'', NUL, NUL, NUL], timout_id := 1\<rparr>,
       ex_world\<lparr>timeouts := [1], next_id := 2, sent := ''x''\<rparr>))"
  by (simp add: run_x) (simp add: no_prefix_of_def ex_defs)

text \<open>
  C1, amended: a call of \<^verbatim>\<open>map_handle_keys\<close> that returns with the queue drained returns
  \<^verbatim>\<open>MAP_DONE\<close> when the last resolution of the call was a match of the table, and
  \<^verbatim>\<open>MAP_NOMATCH\<close> when no resolution of the call was a match of the table (there was
  nothing to resolve, or only literal keys). In particular a single key that no lhs of
  the active mode starts with, fed to an empty queue, is sent on and the call returns
  \<^verbatim>\<open>MAP_NOMATCH\<close>.
\<close>

theorem done_reflects_last_resolution:
  "(map_handle_keys X keys m w = Some (Inr (r, st, m', w')) \<and> r \<noteq> MAP_AMBIGUOUS \<longrightarrow>
      qlen m' = 0 \<and> resolved m' = 0 \<and> (r = MAP_DONE \<or> r = MAP_NOMATCH) \<and>
      (last_mapped st \<longrightarrow> r = MAP_DONE) \<and>
      ((\<forall>s\<in>set st. \<exists>c. s = Literal c) \<longrightarrow> r = MAP_NOMATCH)) \<and>
   (qlen m = 0 \<and> resolved m = 0 \<and> 0 < length (queue m) \<and> buf_ok m \<and>
    (\<forall>r\<in>set (list m). wf_map r) \<and> no_prefix_of k (mode_id (vb w)) (list m) \<longrightarrow>
      (\<exists>m1 w1. map_handle_keys X [k] m w = Some (Inr (MAP_NOMATCH, [Literal k], m1, w1)) \<and>
         sent w1 = sent w @ [k] \<and> qlen m1 = 0 \<and> resolved m1 = 0))"
proof (intro conjI impI)
  assume a: "map_handle_keys X keys m w = Some (Inr (r, st, m', w')) \<and> r \<noteq> MAP_AMBIGUOUS"
  then have d: "qlen m' = 0 \<and> resolved m' = 0 \<and> (r = MAP_DONE \<longleftrightarrow> last_mapped st) \<and>
         (r = MAP_NOMATCH \<longleftrightarrow> \<not> last_mapped st)"
    using done_iff_last_mapped [of X keys m w r st m' w'] by blast
  from d show "qlen m' = 0" "resolved m' = 0" by simp_all
  from d show "r = MAP_DONE \<or> r = MAP_NOMATCH" by blast
  { assume "last_mapped st" with d show "r = MAP_DONE" by simp }
  { assume l: "\<forall>s\<in>set st. \<exists>c. s = Literal c"
    have "\<not> last_mapped st"
    proof
      assume lm: "last_mapped st"
      then have "st \<noteq> []" by (simp add: last_mapped_def)
      then have "last st \<in> set st" by simp
      with l obtain c where "last st = Literal c" by blast
      with lm show False by (simp add: last_mapped_def)
    qed
    with d show "r = MAP_NOMATCH" by simp }
next
  assume "qlen m = 0 \<and> resolved m = 0 \<and> 0 < length (queue m) \<and> buf_ok m \<and>
    (\<forall>r\<in>set (list m). wf_map r) \<and> no_prefix_of k (mode_id (vb w)) (list m)"
  then show "\<exists>m1 w1. map_handle_keys X [k] m w = Some (Inr (MAP_NOMATCH, [Literal k], m1, w1)) \<and>
         sent w1 = sent w @ [k] \<and> qlen m1 = 0 \<and> resolved m1 = 0"
    using single_unmapped_key [of m k w X] by blast
qed

theorem done_reflects_last_resolution_witness:
  "map_handle_keys ex_ext ''x'' ex_table ex_world =
     Some (Inr (MAP_NOMATCH, [Literal CHR ''x''],
       ex_table\<lparr>queue := [CHR ''x'', NUL, NUL, NUL], timout_id := 1\<rparr>,
       ex_world\<lparr>timeouts := [1], next_id := 2, sent := ''x''\<rparr>)) \<and>
   MAP_NOMATCH \<noteq> MAP_AMBIGUOUS \<and>
   qlen ex_table = 0 \<and> resolved ex_table = 0 \<and> 0 < length (queue ex_table) \<and> buf_ok ex_table \<and>
   no_prefix_of CHR ''x'' (mode_id (vb ex_world)) (list ex_table) \<and>
   (\<exists>m1 w1. map_handle_keys ex_ext ''x'' ex_table ex_world =
       Some (Inr (MAP_NOMATCH, [Literal CHR ''x''], m1, w1)) \<and>
     sent w1 = sent ex_world @ ''x'' \<and> qlen m1 = 0 \<and> resolved m1 = 0)"
proof -
  have np: "no_prefix_of CHR ''x'' (mode_id (vb ex_world)) (list ex_table)"
    by (simp add: no_prefix_of_def ex_defs)
  from done_reflects_last_resolution [where X = ex_ext and keys = "''x''" and m = ex_table
      and w = ex_world and r = MAP_NOMATCH and st = "[Literal CHR ''x'']"
      and m' = "ex_table\<lparr>queue := [CHR ''x'', NUL, NUL, NUL], timout_id := 1\<rparr>"
      and w' = "ex_world\<lparr>timeouts := [1], next_id := 2, sent := ''x''\<rparr>" and k = "CHR ''x''"]
    run_x np ex_table_ok
  show ?thesis by simp
qed

subsection \<open>C2\<close>

text \<open>
  C2: the code does not keep \<open>qlen \<le> capacity\<close> when a substitution expands a full
  queue. With a queue of any size, a record \<open>k \<rightarrow> rhs\<close> of two or more bytes and at least
  as many keys \<open>k\<close> as the queue holds, the copy loop fills the queue and the
  substitution writes past its end.
\<close>

theorem full_queue_expansion_overflows:
  assumes "qlen m = 0" and "resolved m = 0" and "buf_ok m" and "0 < length (queue m)"
    and "list m = [r]" and "wf_map r" and "inkeys r = [k]" and "1 < mappedlen r"
    and "mode r = mode_id (vb w)" and "\<not> flag_nomap (vb w)"
    and "length (queue m) \<le> n"
  shows "map_handle_keys X (replicate n k) m w = Some (Inl OutOfBounds)"
proof -
  let ?keys = "replicate n k"
  let ?L = "length (queue m)"
  from assms(4,11) have "0 < n" by (cases n) auto
  then have kn: "?keys \<noteq> []" by auto
  obtain m1 w1 where s: "(if ?keys \<noteq> [] then restart_timer m w else (m, w)) = (m1, w1)"
    by force
  note f1 = start_ok [OF s]
  from assms(1) f1 have "0 \<le> qlen m1" "qlen m1 \<le> int (length (queue m1))" by simp_all
  from append_keys_ok [OF this, of ?keys] obtain m2 where
    a: "append_keys ?keys m1 = Inr m2"
    and m2: "qlen m2 = min (qlen m1 + int (length ?keys)) (int (length (queue m1)))"
      "length (queue m2) = length (queue m1)"
      "take (nat (qlen m2)) (queue m2) = take (nat (qlen m2)) (take (nat (qlen m1)) (queue m1) @ ?keys)"
      "list m2 = list m1" "resolved m2 = resolved m1" "showbuf m2 = showbuf m1" "slen m2 = slen m1"
    by blast
  from m2 f1 assms(1,11) have q2: "qlen m2 = int ?L" "length (queue m2) = ?L" by simp_all
  with m2(3) f1 assms(1,11) have qq: "queue m2 = replicate ?L k" by simp
  have u: "map_handle_keys X ?keys m w = resolve_loop X False None [] m2 w1"
    using s a kn by (auto simp: map_handle_keys_def)
  let ?md = "mode_id (vb w1)"
  from assms(6,7) have il: "inlen r = 1" by (simp add: wf_map_def)
  from assms(4) have tk: "take (Suc 0) (replicate ?L k) = [k]" by (cases ?L) simp_all
  from il assms(4) have amb: "ambiguous_count False (queue m2) (qlen m2) ?md (list m2) = 0"
    using m2 f1 assms(5) q2 by (simp add: ambiguous_count_def ambiguous_match_def)
  from il assms(4,7,9) tk have fm: "full_match (queue m2) (qlen m2) ?md r"
    using f1 q2 qq by (simp add: full_match_def Suc_leI)
  with m2 f1 assms(5) have bm: "best None (filter (full_match (queue m2) (qlen m2) ?md) (list m2)) = Some r"
    by simp
  from assms(2,3,4,5,6) m2 f1 q2 have "resolved m2 = 0" "0 < qlen m2" "qlen m2 \<le> int (length (queue m2))"
    "buf_ok m2" "\<forall>r\<in>set (list m2). wf_map r" by (auto simp: buf_ok_def)
  from round_lookup [OF this, of w1 False X None "[]"] amb bm assms(10) f1
  obtain m3 w3 where se: "same_engine m2 m3"
    and r1: "loop_round X False None [] m2 w1 =
      (case substitute r m3 of Inl e \<Rightarrow> Inl e
       | Inr m4 \<Rightarrow> Inr (Continue (Some r) ([] @ [Mapped r]) m4 w3))"
    by (auto split: if_splits)
  from se q2 il assms(4,8) have "substitute r m3 = Inl OutOfBounds"
    by (intro substitute_overflow) (simp_all add: same_engine_def Suc_leI)
  with r1 have "loop_round X False None [] m2 w1 = Inl OutOfBounds" by simp
  then have "resolve_loop X False None [] m2 w1 = Some (Inl OutOfBounds)"
    by (subst resolve_loop.simps) simp
  with u show ?thesis by simp
qed

theorem full_queue_expansion_overflows_witness:
  "qlen (ex_map\<lparr>list := [rec_loop CHR ''n'']\<rparr>) = 0 \<and> buf_ok (ex_map\<lparr>list := [rec_loop CHR ''n'']\<rparr>) \<and>
   wf_map (rec_loop CHR ''n'') \<and> inkeys (rec_loop CHR ''n'') = ''a'' \<and>
   1 < mappedlen (rec_loop CHR ''n'') \<and>
   length (queue (ex_map\<lparr>list := [rec_loop CHR ''n'']\<rparr>)) \<le> 5 \<and>
   map_handle_keys ex_ext ''aaaaa'' (ex_map\<lparr>list := [rec_loop CHR ''n'']\<rparr>) ex_world =
     Some (Inl OutOfBounds)"
proof -
  let ?m = "ex_map\<lparr>list := [rec_loop CHR ''n'']\<rparr>"
  have h: "qlen ?m = 0" "resolved ?m = 0" "buf_ok ?m" "0 < length (queue ?m)"
    "list ?m = [rec_loop CHR ''n'']" "wf_map (rec_loop CHR ''n'')"
    "inkeys (rec_loop CHR ''n'') = [CHR ''a'']" "1 < mappedlen (rec_loop CHR ''n'')"
    "mode (rec_loop CHR ''n'') = mode_id (vb ex_world)" "\<not> flag_nomap (vb ex_world)"
    "length (queue ?m) \<le> 5"
    by (simp_all add: buf_ok_def wf_map_def ex_defs)
  have "replicate 5 CHR ''a'' = ''aaaaa''" by (simp add: numeral_eq_Suc)
  with full_queue_expansion_overflows [OF h, of ex_ext] h show ?thesis by simp
qed

subsection \<open>C3\<close>




subsection \<open>C4\<close>

text \<open>
  C4: with a table of exactly the two records \<open>a \<rightarrow> 1\<close> and \<open>ab \<rightarrow> 2\<close> of the active
  mode, in either order, an empty queue with room for three bytes and \<^verbatim>\<open>FLAG_NOMAP\<close>
  clear: the call with \<open>a\<close> returns \<^verbatim>\<open>MAP_AMBIGUOUS\<close> and sends nothing; from there, the
  call with \<open>b\<close> returns \<^verbatim>\<open>MAP_DONE\<close> and sends exactly \<open>2\<close>, and the timeout call
  returns \<^verbatim>\<open>MAP_DONE\<close> and sends exactly \<open>1\<close>.
\<close>

theorem ambiguous_prefix_scenario:
  assumes "two_maps md m" and "qlen m = 0" and "resolved m = 0" and "3 \<le> length (queue m)"
    and "buf_ok m" and "mode_id (vb w) = md" and "\<not> flag_nomap (vb w)"
  shows "\<exists>m1 w1. map_handle_keys X ''a'' m w = Some (Inr (MAP_AMBIGUOUS, [], m1, w1)) \<and>
           sent w1 = sent w \<and>
           (\<exists>st m2 w2. map_handle_keys X ''b'' m1 w1 = Some (Inr (MAP_DONE, st, m2, w2)) \<and>
              sent w2 = sent w @ ''2'') \<and>
           (\<exists>st m3 w3. map_timeout X m1 w1 = Some (Inr (MAP_DONE, st, m3, w3)) \<and>
              sent w3 = sent w @ ''1'')"
proof -
  from feed_a [OF assms, of X] obtain m1 w1 where
    a: "map_handle_keys X ''a'' m w = Some (Inr (MAP_AMBIGUOUS, [], m1, w1))"
    and s: "sent w1 = sent w" and p: "pending_a md m1 w1" by blast
  from feed_b [OF p, of X] s obtain st m2 w2 where
    b: "map_handle_keys X ''b'' m1 w1 = Some (Inr (MAP_DONE, st, m2, w2))"
    "sent w2 = sent w @ ''2''" by auto
  from timeout_after_a [OF p, of X] s obtain st' m3 w3 where
    c: "map_timeout X m1 w1 = Some (Inr (MAP_DONE, st', m3, w3))"
    "sent w3 = sent w @ ''1''" by (auto simp: map_timeout_def)
  from a s b c show ?thesis by blast
qed

theorem ambiguous_prefix_scenario_witness:
  "map_insert ''ab'' ''2'' CHR ''n'' (map_insert ''a'' ''1'' CHR ''n'' ex_map) = ex_table \<and>
   two_maps CHR ''n'' ex_table \<and> qlen ex_table = 0 \<and> resolved ex_table = 0 \<and>
   3 \<le> length (queue ex_table) \<and> buf_ok ex_table \<and> mode_id (vb ex_world) = CHR ''n'' \<and>
   \<not> flag_nomap (vb ex_world) \<and>
   (\<exists>m1 w1. map_handle_keys ex_ext ''a'' ex_table ex_world = Some (Inr (MAP_AMBIGUOUS, [], m1, w1)) \<and>
      sent w1 = sent ex_world \<and>
      (\<exists>st m2 w2. map_handle_keys ex_ext ''b'' m1 w1 = Some (Inr (MAP_DONE, st, m2, w2)) \<and>
         sent w2 = sent ex_world @ ''2'') \<and>
      (\<exists>st m3 w3. map_timeout ex_ext m1 w1 = Some (Inr (MAP_DONE, st, m3, w3)) \<and>
         sent w3 = sent ex_world @ ''1''))"
proof -
  note h = ex_table_ok(1-7)
  from ambiguous_prefix_scenario [OF h, of ex_ext] h ex_table_inserted show ?thesis by blast
qed

subsection \<open>C5\<close>

text \<open>
  C5 says that the substitution of a full match replaces the first \<open>inlen\<close> bytes of the
  queue by the \<open>mappedlen\<close> mapped bytes and shifts the tail. The code does so only while
  the result fits (\<open>substitute_then_drain\<close>): unlike the loop that queues the input,
  the substitution does not check the capacity. The four keys \<open>aaaa\<close> fill the queue of
  four bytes, the record \<open>a \<rightarrow> ba\<close> is a full match with \<open>inlen \<le> qlen\<close>, and the loop
  that makes space for the longer rhs writes \<^verbatim>\<open>queue[4]\<close>, past the end of the queue;
  \<open>qlen\<close> would become 5.
\<close>

theorem substitute_full_queue_faults:
  "append_keys ''aaaa'' (ex_map\<lparr>list := [rec_loop CHR ''n'']\<rparr>) = Inr full_state \<and>
   full_match (queue full_state) (qlen full_state) CHR ''n'' (rec_loop CHR ''n'') \<and>
   inlen (rec_loop CHR ''n'') \<le> qlen full_state \<and>
   substitute (rec_loop CHR ''n'') full_state = Inl OutOfBounds"
  by (simp add: full_match_def full_state_def substitute_def make_space.simps rd_def wr_def
      ex_map_def rec_loop_def)

subsection \<open>C6\<close>

text \<open>
  C6: \<^verbatim>\<open><C-A>\<close> and \<^verbatim>\<open><C-a>\<close> are translated to the single byte 1, \<^verbatim>\<open><C-Z>\<close> and
  \<^verbatim>\<open><C-z>\<close> to the single byte 26, \<^verbatim>\<open><CR>\<close> to a newline, \<^verbatim>\<open><Esc>\<close> to the byte
  0x1B, and the unrecognised \<^verbatim>\<open><Unknown>\<close> to its own nine characters; so is every token
  \<^verbatim>\<open><body>\<close> whose body has no \<^verbatim>\<open><\<close>, \<^verbatim>\<open>>\<close> or space and that is neither a control
  token nor one of the three named keys.
\<close>

theorem convert_keys_examples:
  "map_convert_keys ''<C-A>'' = ([CHR 0x01], 1) \<and>
   map_convert_keys ''<C-a>'' = ([CHR 0x01], 1) \<and>
   map_convert_keys ''<C-Z>'' = ([CHR 0x1A], 1) \<and>
   map_convert_keys ''<C-z>'' = ([CHR 0x1A], 1) \<and>
   map_convert_keys ''<CR>'' = ([CHR 0x0A], 1) \<and>
   map_convert_keys ''<Esc>'' = ([CHR 0x1B], 1) \<and>
   map_convert_keys ''<Unknown>'' = (''<Unknown>'', 9) \<and>
   (plain_token body \<longrightarrow>
      map_convert_keys (CHR ''<'' # body @ ''>'') = (CHR ''<'' # body @ ''>'', length body + 2))"
proof -
  have "map_convert_keys ''<C-A>'' = ([CHR 0x01], 1)" by (simp add: convert_eval)
  moreover have "map_convert_keys ''<C-a>'' = ([CHR 0x01], 1)" by (simp add: convert_eval)
  moreover have "map_convert_keys ''<C-Z>'' = ([CHR 0x1A], 1)" by (simp add: convert_eval)
  moreover have "map_convert_keys ''<C-z>'' = ([CHR 0x1A], 1)" by (simp add: convert_eval)
  moreover have "map_convert_keys ''<CR>'' = ([CHR 0x0A], 1)" by (simp add: convert_eval)
  moreover have "map_convert_keys ''<Esc>'' = ([CHR 0x1B], 1)" by (simp add: convert_eval)
  moreover have "map_convert_keys ''<Unknown>'' = (''<Unknown>'', 9)"
    by (simp add: convert_eval)
  ultimately show ?thesis using convert_plain_token [of body] by blast
qed

theorem convert_keys_examples_witness:
  "plain_token ''Unknown'' \<and>
   map_convert_keys (CHR ''<'' # ''Unknown'' @ ''>'') = (''<Unknown>'', 9)"
proof -
  have h: "plain_token ''Unknown''" by (simp add: plain_token_def ctrl_token_def)
  from convert_keys_examples [of "''Unknown''"] h show ?thesis by simp
qed

subsection \<open>C7\<close>

text \<open>
  C7: the lookup over a table of well-formed records returns a record exactly when some
  record of the active mode has an lhs no longer than the queue and equal to its leading
  bytes; the record returned has the greatest lhs length among these, and is the first
  of that length in the order of the list. If it has the lhs and the mode of the first
  record of the list, it is the first record; and \<^verbatim>\<open>map_insert\<close> puts the new record
  first, so of two records inserted with the same lhs and mode the later one is found.
\<close>

theorem lookup_selects_longest_then_first:
  assumes "\<forall>r\<in>set (list m). wf_map r" and "0 \<le> qlen m" and "qlen m \<le> int (length (queue m))"
    and "buf_ok m" and "\<not> flag_nomap (vb w)"
  shows "(\<exists>a mt m' w'. lookup X t m w = Inr (a, mt, m', w') \<and>
     (mt = None \<longleftrightarrow> filter (full_match (queue m) (qlen m) (mode_id (vb w))) (list m) = []) \<and>
     (\<forall>r. mt = Some r \<longrightarrow>
        (\<exists>pre post. filter (full_match (queue m) (qlen m) (mode_id (vb w))) (list m) = pre @ r # post \<and>
           (\<forall>x\<in>set pre. inlen x < inlen r) \<and> (\<forall>x\<in>set post. inlen x \<le> inlen r)) \<and>
        (\<forall>r2 l. list m = r2 # l \<and> inkeys r2 = inkeys r \<and> mode r2 = mode r \<longrightarrow> r = r2))) \<and>
   list (map_insert inp mp md m) =
     \<lparr>inkeys = fst (map_convert_keys inp), inlen = int (snd (map_convert_keys inp)),
      mapped = fst (map_convert_keys mp), mappedlen = int (snd (map_convert_keys mp)),
      mode = md\<rparr> # list m"
  using lookup_selects [OF assms, of X t] map_insert_prepends [of inp mp md m] by blast

theorem lookup_selects_longest_then_first_witness:
  "0 \<le> qlen dup_state \<and>
   qlen dup_state \<le> int (length (queue dup_state)) \<and> buf_ok dup_state \<and>
   \<not> flag_nomap (vb ex_world) \<and>
   (\<exists>a r m' w'. lookup ex_ext True dup_state ex_world = Inr (a, Some r, m', w') \<and>
      mapped r = ''9'')"
proof -
  have h: "\<forall>r\<in>set (list dup_state). wf_map r" "0 \<le> qlen dup_state"
    "qlen dup_state \<le> int (length (queue dup_state))" "buf_ok dup_state"
    "\<not> flag_nomap (vb ex_world)"
    by (simp_all add: dup_state_eq wf_map_def buf_ok_def ex_defs)
  let ?new = "\<lparr>inkeys = ''a'', inlen = 1, mapped = ''9'', mappedlen = 1, mode = CHR ''n''\<rparr>"
  have l: "list dup_state = ?new # [rec_a CHR ''n'']" by (simp add: dup_state_eq ex_defs)
  have f: "filter (full_match (queue dup_state) (qlen dup_state) (mode_id (vb ex_world)))
             (list dup_state) = [?new, rec_a CHR ''n'']"
    by (simp add: dup_state_eq full_match_def ex_defs)
  from lookup_selects_longest_then_first [OF h, of ex_ext True] obtain a mt m' w' where
    lk: "lookup ex_ext True dup_state ex_world = Inr (a, mt, m', w')"
    and n: "mt = None \<longleftrightarrow> filter (full_match (queue dup_state) (qlen dup_state)
              (mode_id (vb ex_world))) (list dup_state) = []"
    and s: "\<forall>r. mt = Some r \<longrightarrow>
        (\<exists>pre post. filter (full_match (queue dup_state) (qlen dup_state) (mode_id (vb ex_world)))
             (list dup_state) = pre @ r # post \<and>
           (\<forall>x\<in>set pre. inlen x < inlen r) \<and> (\<forall>x\<in>set post. inlen x \<le> inlen r)) \<and>
        (\<forall>r2 l. list dup_state = r2 # l \<and> inkeys r2 = inkeys r \<and> mode r2 = mode r \<longrightarrow> r = r2)"
    by blast
  from n f obtain r where mt: "mt = Some r" by (cases mt) auto
  with s f obtain pre post where "[?new, rec_a CHR ''n''] = pre @ r # post" by auto
  then have "r \<in> set [?new, rec_a CHR ''n'']" by (metis in_set_conv_decomp)
  then have "inkeys ?new = inkeys r \<and> mode ?new = mode r" by (auto simp: rec_a_def)
  with s mt l have "r = ?new" by blast
  with lk mt h show ?thesis by auto
qed

subsection \<open>C8\<close>

text \<open>
  C8: \<^verbatim>\<open>map_delete\<close> translates its argument, removes the first record of the table
  whose mode and translated lhs match in length and bytes and returns true; when no
  record matches it returns false and the state is unchanged. The records that stay are
  the records of the old table, in their order, and nothing but the list changes.
\<close>

theorem map_delete_first_match:
  assumes "map_delete inp md m = (m', found)"
  shows "(found \<longleftrightarrow> (\<exists>r\<in>set (list m). lhs_matches md (snd (map_convert_keys inp)) (fst (map_convert_keys inp)) r)) \<and>
         (found \<longrightarrow> (\<exists>pre r post. list m = pre @ r # post \<and>
              (\<forall>x\<in>set pre. \<not> lhs_matches md (snd (map_convert_keys inp)) (fst (map_convert_keys inp)) x) \<and>
              lhs_matches md (snd (map_convert_keys inp)) (fst (map_convert_keys inp)) r \<and>
              list m' = pre @ post)) \<and>
         (\<not> found \<longrightarrow> m' = m) \<and>
         m' = m\<lparr>list := list m'\<rparr>"
proof (cases found)
  case True
  with assms have d: "delete_loop (list m) md (snd (map_convert_keys inp)) (fst (map_convert_keys inp)) = (list m', True)"
    and fr: "m' = m\<lparr>list := list m'\<rparr>"
    by (auto simp: map_delete_def split: prod.splits)
  from delete_loop_found [OF d] True fr show ?thesis by auto
next
  case False
  with assms have d: "delete_loop (list m) md (snd (map_convert_keys inp)) (fst (map_convert_keys inp)) = (list m', False)"
    and fr: "m' = m\<lparr>list := list m'\<rparr>"
    by (auto simp: map_delete_def split: prod.splits)
  from delete_loop_not_found [OF d] False fr show ?thesis by auto
qed

theorem map_delete_first_match_witness:
  "map_delete ''a'' CHR ''n'' (ex_map\<lparr>list := [rec_ab CHR ''n'', rec_a CHR ''n'']\<rparr>)
     = (ex_map\<lparr>list := [rec_ab CHR ''n'']\<rparr>, True) \<and>
   (\<exists>r\<in>set [rec_ab CHR ''n'', rec_a CHR ''n''].
      lhs_matches CHR ''n'' (snd (map_convert_keys ''a'')) (fst (map_convert_keys ''a'')) r)"
proof -
  have h: "map_delete ''a'' CHR ''n'' (ex_map\<lparr>list := [rec_ab CHR ''n'', rec_a CHR ''n'']\<rparr>)
     = (ex_map\<lparr>list := [rec_ab CHR ''n'']\<rparr>, True)"
    by (simp add: map_delete_def convert_eval rec_a_def rec_ab_def ex_map_def)
  from map_delete_first_match [OF h] h show ?thesis by simp
qed

subsection \<open>C9\<close>

text \<open>
  C9: a call of \<^verbatim>\<open>map_handle_keys\<close> that returns \<^verbatim>\<open>MAP_AMBIGUOUS\<close> leaves \<open>resolved = 0\<close>,
  when it was entered with \<open>0 \<le> resolved\<close> and the lengths of the records are not
  negative: the drain loop has run to its end before the lookup, and the lookup does
  not touch \<open>resolved\<close>.
\<close>

theorem ambiguous_return_resolved_zero:
  assumes "map_handle_keys X keys m w = Some (Inr (MAP_AMBIGUOUS, st, m', w'))"
    and "0 \<le> resolved m"
    and "\<forall>r\<in>set (list m). 0 \<le> inlen r \<and> 0 \<le> mappedlen r"
  shows "resolved m' = 0"
proof -
  from assms(1) obtain m1 w1 m2 where
    s: "(if keys \<noteq> [] then restart_timer m w else (m, w)) = (m1, w1)"
    and a: "append_keys keys m1 = Inr m2"
    and r: "resolve_loop X (keys = []) None [] m2 w1 = Some (Inr (MAP_AMBIGUOUS, st, m', w'))"
    by (rule map_handle_keys_Inr)
  from s have m1: "list m1 = list m" "resolved m1 = resolved m"
    by (auto split: if_splits dest!: restart_timer_frame)
       (metis map_state.select_convs(1,4) map_state.surjective map_state.update_convs(7))+
  from append_keys_partial [OF a] m1 assms(2,3)
  have i: "0 \<le> resolved m2 \<and> lens_nonneg m2" by (simp add: lens_nonneg_def)
  have "\<exists>mt0 st0 m0 w0. (0 \<le> resolved m0 \<and> lens_nonneg m0) \<and>
          loop_round X (keys = []) mt0 st0 m0 w0 =
            (case Inr (MAP_AMBIGUOUS, st, m', w') of Inl e \<Rightarrow> Inl e
             | Inr (r, st', m', w') \<Rightarrow> Inr (Return r st' m' w'))"
  proof (rule resolve_loop_last_round [OF r])
    show "0 \<le> resolved m2 \<and> lens_nonneg m2" by (rule i)
  next
    fix mt st m w mt' st' m' w'
    assume "0 \<le> resolved m \<and> lens_nonneg m"
      and "loop_round X (keys = []) mt st m w = Inr (Continue mt' st' (m' :: map_state) w')"
    then show "0 \<le> resolved m' \<and> lens_nonneg m'"
      using loop_round_next_resolved by blast
  qed
  then obtain mt0 st0 m0 w0 where "0 \<le> resolved m0"
    "loop_round X (keys = []) mt0 st0 m0 w0 = Inr (Return MAP_AMBIGUOUS st m' w')"
    by auto
  from loop_round_ambiguous [OF this(2,1)] show ?thesis .
qed

theorem ambiguous_return_resolved_zero_witness:
  "map_handle_keys ex_ext ''a'' ex_table ex_world =
     Some (Inr (MAP_AMBIGUOUS, [],
       ex_table\<lparr>queue := [CHR ''a'', NUL, NUL, NUL], qlen := 1,
         showbuf := [CHR ''a'', NUL, NUL, NUL, NUL, NUL, NUL, NUL, NUL, NUL, NUL, NUL],
         slen := 1, timout_id := 1\<rparr>,
       ex_world\<lparr>cmd_text := ''a'', timeouts := [1], next_id := 2\<rparr>)) \<and>
   0 \<le> resolved ex_table \<and>
   resolved (ex_table\<lparr>queue := [CHR ''a'', NUL, NUL, NUL], qlen := 1,
         showbuf := [CHR ''a'', NUL, NUL, NUL, NUL, NUL, NUL, NUL, NUL, NUL, NUL, NUL],
         slen := 1, timout_id := 1\<rparr>) = 0"
proof -
  have h: "0 \<le> resolved ex_table" "\<forall>r\<in>set (list ex_table). 0 \<le> inlen r \<and> 0 \<le> mappedlen r"
    by (simp_all add: ex_defs)
  from ambiguous_return_resolved_zero [OF run_a h] run_a h show ?thesis by blast
qed

subsection \<open>C10\<close>

text \<open>
  C10: a timeout call (no keys) on an empty queue, with the counters in their invariant
  \<open>0 \<le> resolved \<le> qlen\<close>, returns \<^verbatim>\<open>MAP_NOMATCH\<close> without a resolution and leaves the
  state of the engine (table, queue, \<open>qlen\<close>, \<open>resolved\<close>, \<open>showbuf\<close>, \<open>slen\<close>,
  \<open>timout_id\<close>) and its surroundings (pending timeout sources, label, mode, keys
  sent) as they were.
\<close>

theorem timeout_on_empty_queue:
  assumes "qlen m = 0" and "0 \<le> resolved m" and "resolved m \<le> qlen m"
  shows "map_handle_keys X [] m w = Some (Inr (MAP_NOMATCH, [], m, w))"
proof -
  from assms have r: "resolved m = 0" by simp
  then have "m\<lparr>resolved := 0\<rparr> = m" by (cases m) simp
  with assms r show ?thesis
    by (simp add: map_handle_keys_def resolve_loop.simps loop_round_def drain.simps)
qed

theorem timeout_on_empty_queue_witness:
  "qlen ex_map = 0 \<and> 0 \<le> resolved ex_map \<and> resolved ex_map \<le> qlen ex_map \<and>
   map_handle_keys ex_ext [] ex_map ex_world = Some (Inr (MAP_NOMATCH, [], ex_map, ex_world))"
proof -
  have h: "qlen ex_map = 0" "0 \<le> resolved ex_map" "resolved ex_map \<le> qlen ex_map"
    by (simp_all add: ex_map_def)
  from timeout_on_empty_queue [OF h] h show ?thesis by simp
qed

end
